theory Spec2Isabelle
  imports Complex_Main "HOL-Library.Word" "HOL-Library.AList"
begin

unbundle bit_operations_syntax

section \<open>Peer pool: the mass-disconnect defence\<close>

text \<open>
  The handler of \<open>disconnect_unintentional_after_connect\<close> counts the other verified
  sessions connected when the disconnect fired (\<open>numOtherConnectedNodesBeforeWaiting\<close>)
  and those still connected after the one-second window
  (\<open>numOtherConnectedNodesAfterWaiting\<close>). JavaScript numbers that hold set sizes are
  modelled as \<open>int\<close>; \<open>Math.floor (n / 2)\<close> is \<open>n div 2\<close>.
\<close>

definition otherDisconnectsWhileWaitingThreshold :: "int \<Rightarrow> int" where
  "otherDisconnectsWhileWaitingThreshold numOtherConnectedNodesBeforeWaiting =
     max 0 (numOtherConnectedNodesBeforeWaiting div 2 - 1)"

definition otherDisconnectsWhileWaiting :: "int \<Rightarrow> int \<Rightarrow> bool" where
  "otherDisconnectsWhileWaiting numOtherConnectedNodesBeforeWaiting numOtherConnectedNodesAfterWaiting =
     (numOtherConnectedNodesAfterWaiting
        + otherDisconnectsWhileWaitingThreshold numOtherConnectedNodesBeforeWaiting
      < numOtherConnectedNodesBeforeWaiting)"

text \<open>
  The disconnect is written to the nodes database
  (\<open>addRecentUnintentionalDisconnectTimesMs\<close>) under the guard
  \<open>connectedToInternetAndNotAborted && !otherDisconnectsWhileWaiting\<close>.
\<close>

definition recordsDisconnect :: "bool \<Rightarrow> int \<Rightarrow> int \<Rightarrow> bool" where
  "recordsDisconnect connectedToInternetAndNotAborted before after =
     (connectedToInternetAndNotAborted \<and> \<not> otherDisconnectsWhileWaiting before after)"

section \<open>Peer pool: the nodes database\<close>

text \<open>
  \<open>NodesDatabase\<close> keeps, per address key (\<open>ipPortToString\<close> of the address), the
  metrics record and the last computed rating. \<open>isBlacklisted\<close> reads exactly these two
  maps, so the state modelled here is the part of the class they depend on: the two maps,
  \<open>_latestMetricsUpdateTimeMs\<close> and \<open>_timeOfLastRatingsUpdateMs\<close>. The rating index,
  the seen-time index and the non-blacklisted set are written alongside but never read back
  into the two maps, except that \<open>clearOld\<close> and \<open>clearBlacklisted\<close> take the keys
  they delete from the indexes; that list of keys is a parameter below. JavaScript numbers
  are \<open>real\<close>. The metrics record, \<open>calculateRating\<close>, \<open>getHighestMetricsTime\<close>
  and \<open>createDefaultNodeConnectionMetrics\<close> are parameters.
\<close>

record 'm NodesDatabase =
  ipPortStringToRating :: "string \<rightharpoonup> real"
  ipPortStringToMetrics :: "string \<rightharpoonup> 'm"
  timeOfLastRatingsUpdateMs :: real
  latestMetricsUpdateTimeMs :: real

definition MIN_TIME_BETWEEN_RATINGS_UPDATES_MS :: real where
  "MIN_TIME_BETWEEN_RATINGS_UPDATES_MS = 10 * 1000"

definition newNodesDatabase :: "'m NodesDatabase" where
  "newNodesDatabase =
     \<lparr>ipPortStringToRating = Map.empty, ipPortStringToMetrics = Map.empty,
      timeOfLastRatingsUpdateMs = 0, latestMetricsUpdateTimeMs = 0\<rparr>"

definition recalculateNodeRating ::
  "('m \<Rightarrow> real \<Rightarrow> real \<Rightarrow> real) \<Rightarrow> 'm NodesDatabase \<Rightarrow> string \<Rightarrow> real \<Rightarrow> 'm NodesDatabase" where
  "recalculateNodeRating calculateRating db ipPortString timeMs =
     (case ipPortStringToMetrics db ipPortString of
        None \<Rightarrow> db
      | Some metrics \<Rightarrow>
          (let rating = calculateRating metrics (latestMetricsUpdateTimeMs db) timeMs;
               oldRating = ipPortStringToRating db ipPortString
           in if oldRating \<noteq> None \<and> oldRating = Some rating then db
              else db\<lparr>ipPortStringToRating := (ipPortStringToRating db)(ipPortString \<mapsto> rating)\<rparr>))"

text \<open>
  \<open>_buildRatingsMapsFromMetrics\<close>: \<open>now\<close> is \<open>performance.now()\<close>. The assertion
  inside the loop ends the process (\<open>assert\<close> calls \<open>process.exit\<close>): \<open>None\<close>.
\<close>

definition buildRatingsMapsFromMetrics ::
  "('m \<Rightarrow> real \<Rightarrow> real \<Rightarrow> real) \<Rightarrow> 'm NodesDatabase \<Rightarrow> real \<Rightarrow> real \<Rightarrow> 'm NodesDatabase option" where
  "buildRatingsMapsFromMetrics calculateRating db timeMs now =
     (if card (dom (ipPortStringToRating db)) = card (dom (ipPortStringToMetrics db))
         \<and> timeOfLastRatingsUpdateMs db + MIN_TIME_BETWEEN_RATINGS_UPDATES_MS > now
      then Some db
      else if ipPortStringToMetrics db \<noteq> Map.empty \<and> \<not> latestMetricsUpdateTimeMs db > 0
      then None
      else Some (db\<lparr>ipPortStringToRating :=
                       (\<lambda>ipPortString. map_option
                          (\<lambda>metrics. calculateRating metrics (latestMetricsUpdateTimeMs db) timeMs)
                          (ipPortStringToMetrics db ipPortString)),
                     timeOfLastRatingsUpdateMs := now\<rparr>))"

text \<open>
  \<open>_buildMapsFromMetrics\<close>, run once by \<open>create\<close>: the metrics store is read as a
  list of entries.
\<close>

fun loadMetrics :: "('m \<Rightarrow> real) \<Rightarrow> 'm NodesDatabase \<Rightarrow> (string \<times> 'm) list \<Rightarrow> 'm NodesDatabase" where
  "loadMetrics getHighestMetricsTime db [] = db"
| "loadMetrics getHighestMetricsTime db ((ipPortString, metrics) # rest) =
     loadMetrics getHighestMetricsTime
       (db\<lparr>latestMetricsUpdateTimeMs := max (latestMetricsUpdateTimeMs db) (getHighestMetricsTime metrics),
           ipPortStringToMetrics := (ipPortStringToMetrics db)(ipPortString \<mapsto> metrics)\<rparr>) rest"

definition buildMapsFromMetrics ::
  "('m \<Rightarrow> real \<Rightarrow> real \<Rightarrow> real) \<Rightarrow> ('m \<Rightarrow> real) \<Rightarrow> 'm NodesDatabase \<Rightarrow> (string \<times> 'm) list
     \<Rightarrow> real \<Rightarrow> real \<Rightarrow> 'm NodesDatabase option" where
  "buildMapsFromMetrics calculateRating getHighestMetricsTime db stored timeMs now =
     buildRatingsMapsFromMetrics calculateRating
       (loadMetrics getHighestMetricsTime (db\<lparr>ipPortStringToMetrics := Map.empty\<rparr>) stored) timeMs now"

definition create ::
  "('m \<Rightarrow> real \<Rightarrow> real \<Rightarrow> real) \<Rightarrow> ('m \<Rightarrow> real) \<Rightarrow> (string \<times> 'm) list \<Rightarrow> real \<Rightarrow> real
     \<Rightarrow> 'm NodesDatabase option" where
  "create calculateRating getHighestMetricsTime stored timeMs now =
     buildMapsFromMetrics calculateRating getHighestMetricsTime newNodesDatabase stored timeMs now"

text \<open>\<open>_updateMetricsBatch\<close>: the argument \<open>Map\<close> is the list of its entries.\<close>

fun updateLatest :: "('m \<Rightarrow> real) \<Rightarrow> 'm NodesDatabase \<Rightarrow> (string \<times> 'm) list \<Rightarrow> 'm NodesDatabase" where
  "updateLatest getHighestMetricsTime db [] = db"
| "updateLatest getHighestMetricsTime db ((ipPortString, newMetrics) # rest) =
     updateLatest getHighestMetricsTime
       (if latestMetricsUpdateTimeMs db < getHighestMetricsTime newMetrics
        then db\<lparr>latestMetricsUpdateTimeMs := getHighestMetricsTime newMetrics\<rparr> else db) rest"

fun updateMaps :: "('m \<Rightarrow> real \<Rightarrow> real \<Rightarrow> real) \<Rightarrow> 'm NodesDatabase \<Rightarrow> (string \<times> 'm) list \<Rightarrow> real \<Rightarrow> 'm NodesDatabase" where
  "updateMaps calculateRating db [] timeMs = db"
| "updateMaps calculateRating db ((ipPortString, newMetrics) # rest) timeMs =
     (let newRating = calculateRating newMetrics (latestMetricsUpdateTimeMs db) timeMs
      in updateMaps calculateRating
           (db\<lparr>ipPortStringToMetrics := (ipPortStringToMetrics db)(ipPortString \<mapsto> newMetrics),
               ipPortStringToRating := (ipPortStringToRating db)(ipPortString \<mapsto> newRating)\<rparr>)
           rest timeMs)"

definition updateMetricsBatch ::
  "('m \<Rightarrow> real \<Rightarrow> real \<Rightarrow> real) \<Rightarrow> ('m \<Rightarrow> real) \<Rightarrow> 'm NodesDatabase \<Rightarrow> (string \<times> 'm) list \<Rightarrow> real
     \<Rightarrow> 'm NodesDatabase" where
  "updateMetricsBatch calculateRating getHighestMetricsTime db ipPortStringToMetrics' timeMs =
     updateMaps calculateRating (updateLatest getHighestMetricsTime db ipPortStringToMetrics')
       ipPortStringToMetrics' timeMs"

definition deleteMetrics :: "'m NodesDatabase \<Rightarrow> string \<Rightarrow> 'm NodesDatabase" where
  "deleteMetrics db ipPortString =
     (let oldRating = ipPortStringToRating db ipPortString;
          db1 = db\<lparr>ipPortStringToMetrics := (ipPortStringToMetrics db)(ipPortString := None)\<rparr>
      in if oldRating \<noteq> None
         then db1\<lparr>ipPortStringToRating := (ipPortStringToRating db1)(ipPortString := None)\<rparr>
         else db1)"

definition getMetricsCopySetDefault ::
  "('m \<Rightarrow> real \<Rightarrow> real \<Rightarrow> real) \<Rightarrow> (real \<Rightarrow> 'm) \<Rightarrow> 'm NodesDatabase \<Rightarrow> string \<Rightarrow> real
     \<Rightarrow> 'm NodesDatabase \<times> 'm" where
  "getMetricsCopySetDefault calculateRating createDefaultNodeConnectionMetrics db ipPortString timeMs =
     (case ipPortStringToMetrics db ipPortString of
        Some metrics \<Rightarrow> (db, metrics)
      | None \<Rightarrow>
          (let metrics = createDefaultNodeConnectionMetrics timeMs;
               db1 = db\<lparr>ipPortStringToMetrics := (ipPortStringToMetrics db)(ipPortString \<mapsto> metrics)\<rparr>;
               defaultRating = calculateRating metrics (latestMetricsUpdateTimeMs db1) timeMs
           in (db1\<lparr>ipPortStringToRating := (ipPortStringToRating db1)(ipPortString \<mapsto> defaultRating)\<rparr>,
               metrics)))"

definition clear :: "'m NodesDatabase \<Rightarrow> 'm NodesDatabase" where
  "clear db = db\<lparr>ipPortStringToRating := Map.empty, ipPortStringToMetrics := Map.empty,
                 timeOfLastRatingsUpdateMs := 0, latestMetricsUpdateTimeMs := 0\<rparr>"

text \<open>
  The removal loops of \<open>clearOld\<close> and \<open>clearBlacklisted\<close> over
  \<open>ipPortStringsToDelete\<close>. Reading \<open>lastSeenTimeMs\<close> of a missing metrics record
  throws a \<open>TypeError\<close>; the loop then stops and the database keeps what was done so far
  (the flag is \<open>False\<close>). \<open>clearBlacklisted\<close> has removed the rating by then.
\<close>

fun clearOldLoop :: "'m NodesDatabase \<Rightarrow> string list \<Rightarrow> 'm NodesDatabase \<times> bool" where
  "clearOldLoop db [] = (db, True)"
| "clearOldLoop db (ipPortString # rest) =
     (case ipPortStringToMetrics db ipPortString of
        None \<Rightarrow> (db, False)
      | Some metrics \<Rightarrow>
          clearOldLoop
            (db\<lparr>ipPortStringToMetrics := (ipPortStringToMetrics db)(ipPortString := None),
                ipPortStringToRating := (ipPortStringToRating db)(ipPortString := None)\<rparr>) rest)"

fun clearBlacklistedLoop :: "'m NodesDatabase \<Rightarrow> string list \<Rightarrow> 'm NodesDatabase \<times> bool" where
  "clearBlacklistedLoop db [] = (db, True)"
| "clearBlacklistedLoop db (ipPortString # rest) =
     (let db1 = db\<lparr>ipPortStringToRating := (ipPortStringToRating db)(ipPortString := None)\<rparr>
      in case ipPortStringToMetrics db1 ipPortString of
           None \<Rightarrow> (db1, False)
         | Some metrics \<Rightarrow>
             clearBlacklistedLoop
               (db1\<lparr>ipPortStringToMetrics := (ipPortStringToMetrics db1)(ipPortString := None)\<rparr>) rest)"

definition recomputeLatest :: "('m \<Rightarrow> real) \<Rightarrow> 'm NodesDatabase \<times> bool \<Rightarrow> 'm NodesDatabase" where
  "recomputeLatest getHighestMetricsTime r =
     (case r of
        (db, False) \<Rightarrow> db
      | (db, True) \<Rightarrow>
          db\<lparr>latestMetricsUpdateTimeMs :=
               Max (insert 0 (getHighestMetricsTime ` ran (ipPortStringToMetrics db)))\<rparr>)"

definition clearOld :: "('m \<Rightarrow> real) \<Rightarrow> 'm NodesDatabase \<Rightarrow> string list \<Rightarrow> 'm NodesDatabase" where
  "clearOld getHighestMetricsTime db ipPortStringsToDelete =
     (if ipPortStringsToDelete = [] then db
      else recomputeLatest getHighestMetricsTime (clearOldLoop db ipPortStringsToDelete))"

definition clearBlacklisted :: "('m \<Rightarrow> real) \<Rightarrow> 'm NodesDatabase \<Rightarrow> string list \<Rightarrow> 'm NodesDatabase" where
  "clearBlacklisted getHighestMetricsTime db ipPortStringsToDelete =
     (if ipPortStringsToDelete = [] then db
      else recomputeLatest getHighestMetricsTime (clearBlacklistedLoop db ipPortStringsToDelete))"

definition has :: "('a \<Rightarrow> string) \<Rightarrow> 'm NodesDatabase \<Rightarrow> 'a \<Rightarrow> bool" where
  "has ipPortToString db ipPort = (ipPortStringToMetrics db (ipPortToString ipPort) \<noteq> None)"

text \<open>
  \<open>isBlacklisted\<close>; \<open>blacklistedRatingThreshold\<close> is the static threshold computed at
  start-up. The result is the database after the recalculation and the answer.
\<close>

definition isBlacklisted ::
  "('m \<Rightarrow> real \<Rightarrow> real \<Rightarrow> real) \<Rightarrow> real \<Rightarrow> ('a \<Rightarrow> string) \<Rightarrow> 'm NodesDatabase \<Rightarrow> 'a \<Rightarrow> real
     \<Rightarrow> 'm NodesDatabase \<times> bool" where
  "isBlacklisted calculateRating blacklistedRatingThreshold ipPortToString db ipPort timeMs =
     (let ipPortString = ipPortToString ipPort;
          db' = recalculateNodeRating calculateRating db ipPortString timeMs
      in case ipPortStringToRating db' ipPortString of
           None \<Rightarrow> (db', False)
         | Some rating \<Rightarrow> (db', rating < blacklistedRatingThreshold))"

text \<open>
  The databases the class can be in: made by \<open>create\<close>, then changed by any of its
  methods; every public method is a sequence of the steps below.
\<close>

inductive reachableNodes ::
  "('m \<Rightarrow> real \<Rightarrow> real \<Rightarrow> real) \<Rightarrow> ('m \<Rightarrow> real) \<Rightarrow> (real \<Rightarrow> 'm) \<Rightarrow> 'm NodesDatabase \<Rightarrow> bool"
  for calculateRating getHighestMetricsTime createDefaultNodeConnectionMetrics where
  r_create: "create calculateRating getHighestMetricsTime stored timeMs now = Some db
     \<Longrightarrow> reachableNodes calculateRating getHighestMetricsTime createDefaultNodeConnectionMetrics db"
| r_recalculate: "reachableNodes calculateRating getHighestMetricsTime createDefaultNodeConnectionMetrics db
     \<Longrightarrow> reachableNodes calculateRating getHighestMetricsTime createDefaultNodeConnectionMetrics
           (recalculateNodeRating calculateRating db ipPortString timeMs)"
| r_buildRatings: "reachableNodes calculateRating getHighestMetricsTime createDefaultNodeConnectionMetrics db
     \<Longrightarrow> buildRatingsMapsFromMetrics calculateRating db timeMs now = Some db'
     \<Longrightarrow> reachableNodes calculateRating getHighestMetricsTime createDefaultNodeConnectionMetrics db'"
| r_update: "reachableNodes calculateRating getHighestMetricsTime createDefaultNodeConnectionMetrics db
     \<Longrightarrow> reachableNodes calculateRating getHighestMetricsTime createDefaultNodeConnectionMetrics
           (updateMetricsBatch calculateRating getHighestMetricsTime db entries timeMs)"
| r_delete: "reachableNodes calculateRating getHighestMetricsTime createDefaultNodeConnectionMetrics db
     \<Longrightarrow> reachableNodes calculateRating getHighestMetricsTime createDefaultNodeConnectionMetrics
           (deleteMetrics db ipPortString)"
| r_getDefault: "reachableNodes calculateRating getHighestMetricsTime createDefaultNodeConnectionMetrics db
     \<Longrightarrow> reachableNodes calculateRating getHighestMetricsTime createDefaultNodeConnectionMetrics
           (fst (getMetricsCopySetDefault calculateRating createDefaultNodeConnectionMetrics db ipPortString timeMs))"
| r_clear: "reachableNodes calculateRating getHighestMetricsTime createDefaultNodeConnectionMetrics db
     \<Longrightarrow> reachableNodes calculateRating getHighestMetricsTime createDefaultNodeConnectionMetrics (clear db)"
| r_clearOld: "reachableNodes calculateRating getHighestMetricsTime createDefaultNodeConnectionMetrics db
     \<Longrightarrow> reachableNodes calculateRating getHighestMetricsTime createDefaultNodeConnectionMetrics
           (clearOld getHighestMetricsTime db ipPortStringsToDelete)"
| r_clearBlacklisted: "reachableNodes calculateRating getHighestMetricsTime createDefaultNodeConnectionMetrics db
     \<Longrightarrow> reachableNodes calculateRating getHighestMetricsTime createDefaultNodeConnectionMetrics
           (clearBlacklisted getHighestMetricsTime db ipPortStringsToDelete)"

text \<open>Every rated key has a metrics record.\<close>

definition ratedKnown :: "'m NodesDatabase \<Rightarrow> bool" where
  "ratedKnown db = (\<forall>k. ipPortStringToMetrics db k = None \<longrightarrow> ipPortStringToRating db k = None)"

section \<open>Errors\<close>

text \<open>
  What a call can end with instead of a value: the \<open>Error\<close>s the code throws itself
  (among them \<open>Aborted\<close>, thrown when the abort signal of a request is set),
  the errors of the runtime (\<open>RangeError\<close> of a negative \<open>BigInt\<close> exponent or of a
  read outside a buffer, \<open>SyntaxError\<close> of \<open>BigInt\<close> on a malformed string,
  \<open>TypeError\<close> of a property read on \<open>undefined\<close>), and a failed \<open>assert\<close>,
  which logs and calls \<open>process.exit(1)\<close>.
\<close>

datatype error =
    InvalidBufferLength nat
  | InvalidProofOfWork
  | WorkTotalAlreadySet
  | WorkTotalNotCalculated
  | HeightAlreadySet
  | HeightNotCalculated
  | RangeError
  | SyntaxError
  | TypeError
  | AssertionExit
  | Aborted

definition bindE :: "error + 'a \<Rightarrow> ('a \<Rightarrow> error + 'b) \<Rightarrow> error + 'b" where
  "bindE m f = (case m of Inl e \<Rightarrow> Inl e | Inr x \<Rightarrow> f x)"

definition assert :: "bool \<Rightarrow> error + unit" where
  "assert condition = (if condition then Inr () else Inl AssertionExit)"

section \<open>Header codec (\<open>BlockHeader.ts\<close>)\<close>

type_synonym byte = "8 word"
type_synonym Buffer = "byte list"

text \<open>\<open>Buffer.toString('hex')\<close>: two lower-case digits per byte.\<close>

definition hexDigit :: "nat \<Rightarrow> char" where
  "hexDigit n = (if n < 10 then char_of (48 + n) else char_of (87 + n))"

definition toHex :: "Buffer \<Rightarrow> string" where
  "toHex bs = concat (map (\<lambda>b. [hexDigit (unat b div 16), hexDigit (unat b mod 16)]) bs)"

text \<open>
  \<open>BigInt(`0x${s}`)\<close> for a string of hexadecimal digits; an empty string or another
  character is a \<open>SyntaxError\<close>.
\<close>

definition hexValue :: "char \<Rightarrow> nat option" where
  "hexValue c =
     (let k = (of_char c :: nat)
      in if 48 \<le> k \<and> k \<le> 57 then Some (k - 48)
         else if 97 \<le> k \<and> k \<le> 102 then Some (k - 87)
         else if 65 \<le> k \<and> k \<le> 70 then Some (k - 55)
         else None)"

fun bigIntDigits :: "nat \<Rightarrow> string \<Rightarrow> error + nat" where
  "bigIntDigits acc [] = Inr acc"
| "bigIntDigits acc (c # cs) =
     (case hexValue c of None \<Rightarrow> Inl SyntaxError | Some d \<Rightarrow> bigIntDigits (acc * 16 + d) cs)"

definition bigIntOfHex :: "string \<Rightarrow> error + nat" where
  "bigIntOfHex s = (if s = [] then Inl SyntaxError else bigIntDigits 0 s)"

definition HEADER_BUFFER_LENGTH :: nat where
  "HEADER_BUFFER_LENGTH = 80"

definition GENESIS_PREV_HASH_HEX :: string where
  "GENESIS_PREV_HASH_HEX = replicate 64 CHR ''0''"

text \<open>
  \<open>readUInt32BE\<close> gives a number below \<open>2^32\<close>; on it \<open>bits >>> 24\<close> is the
  division by \<open>2^24\<close>, \<open>& 0xff\<close> the remainder modulo \<open>2^8\<close> and \<open>& 0xffffff\<close>
  the remainder modulo \<open>2^24\<close>.
\<close>

definition readUInt32BE :: "Buffer \<Rightarrow> nat \<Rightarrow> error + nat" where
  "readUInt32BE buf offset =
     (if offset + 4 \<le> length buf
      then Inr (unat (buf ! offset) * 2 ^ 24 + unat (buf ! (offset + 1)) * 2 ^ 16
                + unat (buf ! (offset + 2)) * 2 ^ 8 + unat (buf ! (offset + 3)))
      else Inl RangeError)"

text \<open>
  \<open>decodeTargetFromBitsBuffer\<close>: \<open>BigInt(2) ** BigInt(8 * (exponent - 3))\<close> throws a
  \<open>RangeError\<close> for a negative exponent.
\<close>

definition decodeTargetFromBitsBuffer :: "Buffer \<Rightarrow> error + nat" where
  "decodeTargetFromBitsBuffer bitsBuffer' =
     bindE (readUInt32BE bitsBuffer' 0) (\<lambda>bits.
       let exponent = (bits div 2 ^ 24) mod 2 ^ 8;
           coefficient = bits mod 2 ^ 24
       in if exponent < 3 then Inl RangeError
          else Inr (coefficient * 2 ^ (8 * (exponent - 3))))"

definition calculateWorkFromTarget :: "nat \<Rightarrow> error + nat" where
  "calculateWorkFromTarget target =
     bindE (assert (target \<noteq> 0)) (\<lambda>_. let maxHash = (2::nat) ^ 256 in Inr (maxHash div target))"

definition verifyProofOfWork :: "string \<Rightarrow> nat \<Rightarrow> error + bool" where
  "verifyProofOfWork hashHex' target =
     bindE (assert (\<not> (take 2 hashHex' = ''0x''))) (\<lambda>_.
     bindE (bigIntOfHex hashHex') (\<lambda>hashValue. Inr (hashValue \<le> target)))"

text \<open>
  The class \<open>BlockHeaderMutable\<close>: the buffer, the two hashes computed by the constructor,
  and the private \<open>_workTotal\<close> and \<open>_height\<close>, unset at first.
\<close>

record BlockHeaderMutable =
  buffer :: Buffer
  prevHashHex :: string
  hashHex :: string
  workTotalOpt :: "nat option"
  heightOpt :: "nat option"

definition bitsBuffer :: "BlockHeaderMutable \<Rightarrow> Buffer" where
  "bitsBuffer this = rev (take 4 (drop 72 (buffer this)))"

definition work :: "BlockHeaderMutable \<Rightarrow> error + nat" where
  "work this = bindE (decodeTargetFromBitsBuffer (bitsBuffer this)) calculateWorkFromTarget"

definition setWorkTotal :: "BlockHeaderMutable \<Rightarrow> nat \<Rightarrow> error + BlockHeaderMutable" where
  "setWorkTotal this w =
     (if workTotalOpt this \<noteq> None \<and> workTotalOpt this \<noteq> Some w then Inl WorkTotalAlreadySet
      else Inr (this\<lparr>workTotalOpt := Some w\<rparr>))"

definition workTotal :: "BlockHeaderMutable \<Rightarrow> error + nat" where
  "workTotal this = (case workTotalOpt this of None \<Rightarrow> Inl WorkTotalNotCalculated | Some w \<Rightarrow> Inr w)"

definition setHeight :: "BlockHeaderMutable \<Rightarrow> nat \<Rightarrow> error + BlockHeaderMutable" where
  "setHeight this h =
     (if heightOpt this \<noteq> None \<and> heightOpt this \<noteq> Some h then Inl HeightAlreadySet
      else Inr (this\<lparr>heightOpt := Some h\<rparr>))"

definition height :: "BlockHeaderMutable \<Rightarrow> error + nat" where
  "height this = (case heightOpt this of None \<Rightarrow> Inl HeightNotCalculated | Some h \<Rightarrow> Inr h)"

text \<open>
  The constructor, reached through \<open>fromBuffer\<close> and \<open>fromHex\<close>. \<open>sha256sha256\<close> is
  the double SHA-256 of Node's \<open>crypto\<close> module, a parameter.
\<close>

definition newBlockHeaderMutable ::
  "(Buffer \<Rightarrow> Buffer) \<Rightarrow> Buffer \<Rightarrow> bool \<Rightarrow> error + BlockHeaderMutable" where
  "newBlockHeaderMutable sha256sha256 buf skipProofOfWorkCheck =
     (if length buf \<noteq> HEADER_BUFFER_LENGTH then Inl (InvalidBufferLength (length buf))
      else
        let this = \<lparr>buffer = buf,
                    prevHashHex = toHex (rev (take 32 (drop 4 buf))),
                    hashHex = toHex (rev (sha256sha256 buf)),
                    workTotalOpt = None, heightOpt = None\<rparr>
        in bindE (if \<not> skipProofOfWorkCheck
                  then bindE (decodeTargetFromBitsBuffer (bitsBuffer this)) (\<lambda>target.
                       bindE (verifyProofOfWork (hashHex this) target) (\<lambda>ok.
                         if \<not> ok then Inl InvalidProofOfWork else Inr ()))
                  else Inr ()) (\<lambda>_.
           if prevHashHex this = GENESIS_PREV_HASH_HEX
           then bindE (setHeight this 0) (\<lambda>this.
                bindE (work this) (\<lambda>w. setWorkTotal this w))
           else Inr this))"

definition fromBuffer :: "(Buffer \<Rightarrow> Buffer) \<Rightarrow> Buffer \<Rightarrow> bool \<Rightarrow> error + BlockHeaderMutable" where
  "fromBuffer sha256sha256 buf skipProofOfWorkCheck =
     newBlockHeaderMutable sha256sha256 buf skipProofOfWorkCheck"

section \<open>Header graph (\<open>BlockHeadersDatabase\<close>)\<close>

text \<open>
  A JavaScript \<open>Set\<close> that the code iterates is a list without duplicates in insertion
  order; a \<open>Map\<close> that is only looked up is a map; \<open>_sortedHeadersIndex\<close>, whose
  \<open>size\<close> is read, is the list of its entries (\<open>map_of\<close> looks a key up,
  \<open>AList.update\<close> is \<open>set\<close>, \<open>AList.delete\<close> is \<open>delete\<close>, the length is the
  size). Header objects are values: a header stored under a hash carries the height and
  work total that \<open>_insert\<close> set on it.
\<close>

definition setAdd :: "'a \<Rightarrow> 'a list \<Rightarrow> 'a list" where
  "setAdd x xs = (if x \<in> set xs then xs else xs @ [x])"

definition setDelete :: "'a \<Rightarrow> 'a list \<Rightarrow> 'a list" where
  "setDelete x xs = removeAll x xs"

record AddHeadersChanges =
  headersRemovedFromLongestChain :: "BlockHeaderMutable list"
  headersAddedToLongestChain :: "BlockHeaderMutable list"
  headersInvalidated :: "BlockHeaderMutable list"

record BlockHeadersDatabase =
  invalidBlocks :: "string set"
  allHeaders :: "string \<rightharpoonup> BlockHeaderMutable"
  headersTree :: "string \<rightharpoonup> string list"
  headersTreeLeafHashes :: "string list"
  sortedHeaders :: "BlockHeaderMutable list"
  sortedHeadersIndex :: "(string \<times> nat) list"

text \<open>
  The genesis header: \<open>BlockHeaderMutable.fromHex(BITCOIN_GENESIS_HEADER_HEX)\<close>, whose
  hash the module asserts to be \<open>BITCOIN_GENESIS_HEADER_HASH_HEX\<close>. Its previous hash is
  all zeros, so the constructor has set height 0 and the work total to its work.
\<close>

definition BITCOIN_GENESIS_HEADER_BUFFER :: Buffer where
  "BITCOIN_GENESIS_HEADER_BUFFER =
     [0x01, 0x00, 0x00, 0x00] @ replicate 32 0x00 @
     [0x3b, 0xa3, 0xed, 0xfd, 0x7a, 0x7b, 0x12, 0xb2, 0x7a, 0xc7, 0x2c, 0x3e, 0x67, 0x76, 0x8f, 0x61,
      0x7f, 0xc8, 0x1b, 0xc3, 0x88, 0x8a, 0x51, 0x32, 0x3a, 0x9f, 0xb8, 0xaa, 0x4b, 0x1e, 0x5e, 0x4a,
      0x29, 0xab, 0x5f, 0x49, 0xff, 0xff, 0x00, 0x1d, 0x1d, 0xac, 0x2b, 0x7c]"

definition BITCOIN_GENESIS_HEADER_HASH_HEX :: string where
  "BITCOIN_GENESIS_HEADER_HASH_HEX =
     ''000000000019d6689c085ae165831e934ff763ae46a2a6c172b3f1b60a8ce26f''"

definition genesisHeader :: BlockHeaderMutable where
  "genesisHeader =
     \<lparr>buffer = BITCOIN_GENESIS_HEADER_BUFFER,
      prevHashHex = GENESIS_PREV_HASH_HEX,
      hashHex = BITCOIN_GENESIS_HEADER_HASH_HEX,
      workTotalOpt = Some 4295032833, heightOpt = Some 0\<rparr>"

text \<open>
  The constructor, as \<open>fromGenesis\<close> calls it. \<open>setHeight(0)\<close> and
  \<open>setWorkTotal(genesisHeader.work)\<close> repeat what the header constructor did; the
  assertion on the previous hash of the first header is kept.
\<close>

definition fromGenesis :: "string set \<Rightarrow> error + BlockHeadersDatabase" where
  "fromGenesis invalidBlocks' =
     bindE (setHeight genesisHeader 0) (\<lambda>g.
     bindE (work g) (\<lambda>w.
     bindE (setWorkTotal g w) (\<lambda>g.
     bindE (assert (prevHashHex g = replicate 64 CHR ''0'')) (\<lambda>_.
       Inr \<lparr>invalidBlocks = invalidBlocks',
            allHeaders = [hashHex g \<mapsto> g],
            headersTree = [hashHex g \<mapsto> []],
            headersTreeLeafHashes = [hashHex g],
            sortedHeaders = [g],
            sortedHeadersIndex = [(hashHex g, 0)]\<rparr>))))"

text \<open>
  \<open>_insert\<close>, the scan of the batch. After an invalid header the following headers are
  collected as long as each names the previous one as its parent.
\<close>

fun collectInvalidated :: "BlockHeaderMutable \<Rightarrow> BlockHeaderMutable list \<Rightarrow> BlockHeaderMutable list" where
  "collectInvalidated lastHeaderChecked [] = []"
| "collectInvalidated lastHeaderChecked (header # rest) =
     (if prevHashHex header \<noteq> hashHex lastHeaderChecked then []
      else header # collectInvalidated header rest)"

definition linkHeader ::
  "BlockHeadersDatabase \<Rightarrow> BlockHeaderMutable \<Rightarrow> BlockHeaderMutable \<Rightarrow> string list
     \<Rightarrow> error + BlockHeadersDatabase" where
  "linkHeader st header prevHeader prevHeaderChildren =
     bindE (height prevHeader) (\<lambda>prevHeight.
     bindE (setHeight header (prevHeight + 1)) (\<lambda>header.
     bindE (workTotal prevHeader) (\<lambda>prevWorkTotal.
     bindE (work header) (\<lambda>headerWork.
     bindE (setWorkTotal header (prevWorkTotal + headerWork)) (\<lambda>header.
       Inr (st\<lparr>allHeaders := (allHeaders st)(hashHex header \<mapsto> header),
               headersTree := ((headersTree st)
                  (hashHex prevHeader \<mapsto> setAdd (hashHex header) prevHeaderChildren))
                  (hashHex header \<mapsto> []),
               headersTreeLeafHashes :=
                 setAdd (hashHex header) (setDelete (hashHex prevHeader) (headersTreeLeafHashes st))\<rparr>))))))"

fun scanHeaders ::
  "BlockHeadersDatabase \<Rightarrow> BlockHeaderMutable list
     \<Rightarrow> error + BlockHeadersDatabase \<times> BlockHeaderMutable list" where
  "scanHeaders st [] = Inr (st, [])"
| "scanHeaders st (header # rest) =
     (case allHeaders st (prevHashHex header) of
        None \<Rightarrow> Inr (st, [])
      | Some prevHeader \<Rightarrow>
          (case headersTree st (hashHex prevHeader) of
             None \<Rightarrow> Inr (st, [])
           | Some prevHeaderChildren \<Rightarrow>
               if hashHex header \<in> invalidBlocks st
               then Inr (st, header # collectInvalidated header rest)
               else bindE (linkHeader st header prevHeader prevHeaderChildren)
                          (\<lambda>st'. scanHeaders st' rest)))"

text \<open>The leaf with the highest work total, the current tip winning ties.\<close>

fun findTipLoop :: "BlockHeadersDatabase \<Rightarrow> string list \<Rightarrow> nat \<Rightarrow> string \<Rightarrow> error + string" where
  "findTipLoop st [] maxWorkTotal newChainTipHash = Inr newChainTipHash"
| "findTipLoop st (leafHeaderHash # rest) maxWorkTotal newChainTipHash =
     (case allHeaders st leafHeaderHash of
        None \<Rightarrow> Inl TypeError
      | Some leafHeader \<Rightarrow>
          bindE (workTotal leafHeader) (\<lambda>w.
            if w > maxWorkTotal then findTipLoop st rest w leafHeaderHash
            else findTipLoop st rest maxWorkTotal newChainTipHash))"

definition getHeaderTip :: "BlockHeadersDatabase \<Rightarrow> error + BlockHeaderMutable" where
  "getHeaderTip st = (if sortedHeaders st = [] then Inl TypeError else Inr (last (sortedHeaders st)))"

definition findTip :: "BlockHeadersDatabase \<Rightarrow> error + string" where
  "findTip st =
     bindE (getHeaderTip st) (\<lambda>tip.
     bindE (workTotal tip) (\<lambda>maxWorkTotal.
       findTipLoop st (headersTreeLeafHashes st) maxWorkTotal (hashHex tip)))"

text \<open>
  The walk from the new tip back to the first header of the old chain. The loop can run
  for ever on a cyclic graph, so it is a partial function: \<open>None\<close> is not returning.
  The result is \<open>headersToAdd\<close> in the order pushed and the last \<open>currentHeader\<close>.
\<close>

partial_function (option) collectHeadersToAdd ::
  "BlockHeadersDatabase \<Rightarrow> BlockHeaderMutable option \<Rightarrow> BlockHeaderMutable list
     \<Rightarrow> (BlockHeaderMutable list \<times> BlockHeaderMutable option) option" where
  "collectHeadersToAdd st currentHeader headersToAdd =
     (case currentHeader of
        None \<Rightarrow> Some (headersToAdd, None)
      | Some h \<Rightarrow>
          if map_of (sortedHeadersIndex st) (hashHex h) \<noteq> None then Some (headersToAdd, Some h)
          else collectHeadersToAdd st (allHeaders st (prevHashHex h)) (headersToAdd @ [h]))"

declare collectHeadersToAdd.simps [code]

fun indexAdded :: "(string \<times> nat) list \<Rightarrow> nat \<Rightarrow> BlockHeaderMutable list \<Rightarrow> (string \<times> nat) list" where
  "indexAdded idx n [] = idx"
| "indexAdded idx n (header # rest) = indexAdded (AList.update (hashHex header) n idx) (Suc n) rest"

definition indexRemoved :: "(string \<times> nat) list \<Rightarrow> BlockHeaderMutable list \<Rightarrow> (string \<times> nat) list" where
  "indexRemoved idx headersRemoved = fold (\<lambda>header m. AList.delete (hashHex header) m) headersRemoved idx"

definition noChanges :: "BlockHeaderMutable list \<Rightarrow> AddHeadersChanges" where
  "noChanges invalidated =
     \<lparr>headersRemovedFromLongestChain = [], headersAddedToLongestChain = [],
      headersInvalidated = invalidated\<rparr>"

definition reorganize ::
  "BlockHeadersDatabase \<Rightarrow> BlockHeaderMutable list \<Rightarrow> BlockHeaderMutable list \<Rightarrow> BlockHeaderMutable option
     \<Rightarrow> error + BlockHeadersDatabase \<times> AddHeadersChanges" where
  "reorganize st invalidated pushed currentHeader =
     (case currentHeader of
        None \<Rightarrow> Inl TypeError
      | Some h \<Rightarrow>
          bindE (height h) (\<lambda>hh.
            let headersToAdd = rev pushed;
                newStartingHeight = hh + 1;
                headersRemoved = drop newStartingHeight (sortedHeaders st);
                kept = take newStartingHeight (sortedHeaders st);
                idx = indexAdded (indexRemoved (sortedHeadersIndex st) headersRemoved)
                        newStartingHeight headersToAdd;
                st' = st\<lparr>sortedHeaders := kept @ headersToAdd, sortedHeadersIndex := idx\<rparr>
            in bindE (assert (length idx = length (sortedHeaders st'))) (\<lambda>_.
                 Inr (st', \<lparr>headersRemovedFromLongestChain = headersRemoved,
                            headersAddedToLongestChain = headersToAdd,
                            headersInvalidated = invalidated\<rparr>))))"

text \<open>The filter at the head of \<open>_insert\<close>, applied once the chain is longer than the genesis.\<close>

definition filterKnown :: "BlockHeadersDatabase \<Rightarrow> BlockHeaderMutable list \<Rightarrow> BlockHeaderMutable list" where
  "filterKnown st newHeaders =
     (if length (sortedHeaders st) > 1
      then filter (\<lambda>header. allHeaders st (hashHex header) = None) newHeaders
      else newHeaders)"

definition insertHeaders ::
  "BlockHeadersDatabase \<Rightarrow> BlockHeaderMutable list
     \<Rightarrow> (error + BlockHeadersDatabase \<times> AddHeadersChanges) option" where
  "insertHeaders st newHeaders0 =
     (let newHeaders = filterKnown st newHeaders0
      in if newHeaders = [] then Some (Inr (st, noChanges []))
         else case scanHeaders st newHeaders of
                Inl e \<Rightarrow> Some (Inl e)
              | Inr (st1, invalidated) \<Rightarrow>
                  (case findTip st1 of
                     Inl e \<Rightarrow> Some (Inl e)
                   | Inr newChainTipHash \<Rightarrow>
                       if newChainTipHash = hashHex (last (sortedHeaders st1))
                       then Some (Inr (st1, noChanges invalidated))
                       else map_option (\<lambda>(pushed, currentHeader).
                                reorganize st1 invalidated pushed currentHeader)
                              (collectHeadersToAdd st1 (allHeaders st1 newChainTipHash) [])))"

text \<open>
  \<open>addHeaders\<close> is \<open>_insert\<close> followed by the queueing of the write to LevelDB, which
  does not touch the graph.
\<close>

definition addHeaders ::
  "BlockHeadersDatabase \<Rightarrow> BlockHeaderMutable list
     \<Rightarrow> (error + BlockHeadersDatabase \<times> AddHeadersChanges) option" where
  "addHeaders st headers = insertHeaders st headers"

definition getHeaderFromHashHex :: "BlockHeadersDatabase \<Rightarrow> string \<Rightarrow> BlockHeaderMutable option" where
  "getHeaderFromHashHex st hashHex' = allHeaders st hashHex'"

definition getHeaderFromHeight :: "BlockHeadersDatabase \<Rightarrow> nat \<Rightarrow> BlockHeaderMutable option" where
  "getHeaderFromHeight st h = (if h < length (sortedHeaders st) then Some (sortedHeaders st ! h) else None)"

text \<open>
  \<open>pruneBranches\<close>. \<open>staleHeaderHashes\<close> is a \<open>Set\<close> that is iterated, and
  \<open>staleHeaderDivergenceParentHashes\<close> a \<open>Map\<close> that is iterated: a list of hashes
  and a list of entries. The walk from a stale leaf to the longest chain is a loop that
  may not return (\<open>None\<close>); reading \<open>prevHashHex\<close> of a header that is not stored is
  a \<open>TypeError\<close>.
\<close>

fun mapSet :: "string \<Rightarrow> string \<Rightarrow> (string \<times> string) list \<Rightarrow> (string \<times> string) list" where
  "mapSet k v [] = [(k, v)]"
| "mapSet k v ((k', v') # rest) = (if k' = k then (k, v) # rest else (k', v') # mapSet k v rest)"

partial_function (option) walkToLongestChain ::
  "BlockHeadersDatabase \<Rightarrow> string list \<Rightarrow> string \<Rightarrow> string
     \<Rightarrow> (error + string list \<times> string \<times> string) option" where
  "walkToLongestChain st staleHeaderHashes currentHashHex prevHashHex' =
     (if map_of (sortedHeadersIndex st) prevHashHex' \<noteq> None
      then Some (Inr (staleHeaderHashes, currentHashHex, prevHashHex'))
      else case allHeaders st prevHashHex' of
             None \<Rightarrow> Some (Inl TypeError)
           | Some header \<Rightarrow>
               walkToLongestChain st (setAdd prevHashHex' staleHeaderHashes) prevHashHex'
                 (prevHashHex header))"

declare walkToLongestChain.simps [code]

fun collectStale ::
  "BlockHeadersDatabase \<Rightarrow> string list \<Rightarrow> string list \<Rightarrow> (string \<times> string) list
     \<Rightarrow> (error + string list \<times> (string \<times> string) list) option" where
  "collectStale st [] staleHeaderHashes divergence = Some (Inr (staleHeaderHashes, divergence))"
| "collectStale st (leafHashHex # rest) staleHeaderHashes divergence =
     (case walkToLongestChain st staleHeaderHashes leafHashHex leafHashHex of
        None \<Rightarrow> None
      | Some (Inl e) \<Rightarrow> Some (Inl e)
      | Some (Inr (staleHeaderHashes', currentHashHex, prevHashHex')) \<Rightarrow>
          collectStale st rest staleHeaderHashes' (mapSet currentHashHex prevHashHex' divergence))"

fun detachStale :: "BlockHeadersDatabase \<Rightarrow> (string \<times> string) list \<Rightarrow> error + BlockHeadersDatabase" where
  "detachStale st [] = Inr st"
| "detachStale st ((divergenceHeaderHash, divergenceParentHeaderHash) # rest) =
     bindE (assert (map_of (sortedHeadersIndex st) divergenceHeaderHash = None)) (\<lambda>_.
     bindE (assert (map_of (sortedHeadersIndex st) divergenceParentHeaderHash \<noteq> None)) (\<lambda>_.
       case headersTree st divergenceParentHeaderHash of
         None \<Rightarrow> Inl AssertionExit
       | Some children \<Rightarrow>
           bindE (assert (children \<noteq> [])) (\<lambda>_.
             detachStale
               (st\<lparr>headersTree := (headersTree st)
                      (divergenceParentHeaderHash \<mapsto> setDelete divergenceHeaderHash children)\<rparr>)
               rest)))"

fun deleteStale :: "BlockHeadersDatabase \<Rightarrow> string list \<Rightarrow> error + BlockHeadersDatabase" where
  "deleteStale st [] = Inr st"
| "deleteStale st (hashHex' # rest) =
     (let st' = st\<lparr>allHeaders := (allHeaders st)(hashHex' := None),
                   headersTree := (headersTree st)(hashHex' := None),
                   headersTreeLeafHashes := setDelete hashHex' (headersTreeLeafHashes st)\<rparr>
      in bindE (assert (map_of (sortedHeadersIndex st') hashHex' = None)) (\<lambda>_. deleteStale st' rest))"

text \<open>The stale hashes and divergence points that \<open>pruneBranches\<close> computes first.\<close>

definition staleOf ::
  "BlockHeadersDatabase \<Rightarrow> (error + string list \<times> (string \<times> string) list) option" where
  "staleOf st =
     (case getHeaderTip st of
        Inl e \<Rightarrow> Some (Inl e)
      | Inr tip \<Rightarrow>
          (let staleHeaderHashes = setDelete (hashHex tip) (headersTreeLeafHashes st)
           in collectStale st staleHeaderHashes staleHeaderHashes []))"

definition pruneBranches :: "BlockHeadersDatabase \<Rightarrow> (error + BlockHeadersDatabase \<times> int) option" where
  "pruneBranches st =
     (let numBranchesBefore = length (headersTreeLeafHashes st)
      in case staleOf st of
           None \<Rightarrow> None
         | Some (Inl e) \<Rightarrow> Some (Inl e)
         | Some (Inr (staleHeaderHashes, divergence)) \<Rightarrow>
             Some (bindE (detachStale st divergence) (\<lambda>st1.
                   bindE (deleteStale st1 staleHeaderHashes) (\<lambda>st2.
                   bindE (assert (hashHex (last (sortedHeaders st2)) \<in> set (headersTreeLeafHashes st2))) (\<lambda>_.
                   bindE (assert (length (headersTreeLeafHashes st2) = 1)) (\<lambda>_.
                     Inr (st2, int numBranchesBefore - int (length (headersTreeLeafHashes st2)))))))))"

section \<open>Peer session: the header sync loop on an empty response\<close>

text \<open>
  The fields of \<open>LegacyNodeConnection\<close> that \<open>_syncHeaders\<close> reads when the peer
  answers \<open>getheaders\<close> with no header.
\<close>

record LegacyNodeConnection =
  tipHashHex :: string
  startingTipHashHex :: string

text \<open>
  The turn of the loop of \<open>_syncHeaders\<close> in which \<open>getHeaders\<close> has resolved with
  no header. \<open>signalAborted\<close> is \<open>signal?.aborted\<close>, read right after the response:
  the loop then throws \<open>Aborted\<close> before it looks at the headers. Otherwise the result
  says whether the branch \<open>headers.length === 0\<close> emits \<open>out_of_sync\<close> before it
  leaves the loop. \<open>getHeaderFromHashHex(this._tipHashHex)?.height || 0\<close> is 0 for a hash
  that is not stored.
\<close>

definition emitsOutOfSync ::
  "LegacyNodeConnection \<Rightarrow> BlockHeadersDatabase \<Rightarrow> bool \<Rightarrow> error + bool" where
  "emitsOutOfSync this db signalAborted =
     (if signalAborted then Inl Aborted
      else
        bindE (getHeaderTip db) (\<lambda>tip.
          if tipHashHex this \<noteq> hashHex tip \<and> tipHashHex this \<noteq> startingTipHashHex this
          then bindE (height tip) (\<lambda>chainTipHeight.
               bindE (case getHeaderFromHashHex db (tipHashHex this) of
                        None \<Rightarrow> Inr 0
                      | Some header \<Rightarrow> height header) (\<lambda>nodeTipHeight.
                 Inr (nodeTipHeight + 100 < chainTipHeight)))
          else Inr False))"

section \<open>Example graphs\<close>

text \<open>
  Headers for examples: the 80 bytes carry the bits \<open>1d00ffff\<close> of the first blocks
  (work 4295032833); the hashes are short strings standing for the 64 hexadecimal digits.
\<close>

definition exampleHeader :: "string \<Rightarrow> string \<Rightarrow> BlockHeaderMutable" where
  "exampleHeader h p =
     \<lparr>buffer = replicate 72 0x00 @ [0xff, 0xff, 0x00, 0x1d] @ replicate 4 0x00,
      prevHashHex = p, hashHex = h, workTotalOpt = None, heightOpt = None\<rparr>"

text \<open>
  The graph after the linear extension of the genesis by \<open>n\<close> headers: header \<open>i\<close>
  has the hash \<open>blockHash i\<close>, height \<open>i\<close> and work total \<open>(i + 1) * 4295032833\<close>.
\<close>

definition blockHash :: "nat \<Rightarrow> string" where
  "blockHash i = (if i = 0 then BITCOIN_GENESIS_HEADER_HASH_HEX else replicate i CHR ''b'')"

definition linearHeader :: "nat \<Rightarrow> BlockHeaderMutable" where
  "linearHeader i =
     (if i = 0 then genesisHeader
      else (exampleHeader (blockHash i) (blockHash (i - 1)))
             \<lparr>workTotalOpt := Some ((i + 1) * 4295032833), heightOpt := Some i\<rparr>)"

definition linearChain :: "nat \<Rightarrow> BlockHeadersDatabase" where
  "linearChain n =
     \<lparr>invalidBlocks = {},
      allHeaders = map_of (map (\<lambda>i. (blockHash i, linearHeader i)) [0..<Suc n]),
      headersTree = map_of (map (\<lambda>i. (blockHash i, if i < n then [blockHash (Suc i)] else [])) [0..<Suc n]),
      headersTreeLeafHashes = [blockHash n],
      sortedHeaders = map linearHeader [0..<Suc n],
      sortedHeadersIndex = map (\<lambda>i. (blockHash i, i)) [0..<Suc n]\<rparr>"

section \<open>Numbers read off a header buffer\<close>

text \<open>
  The hash "interpreted as a big integer" is \<open>BigInt\<close> of the hexadecimal digits of the
  reversed digest, that is the digest read as a little-endian number. The bits field
  occupies bytes 72 to 75, little-endian: byte 75 is the exponent, bytes 72 to 74 the
  coefficient, and the target is \<open>coefficient * 2 ^ (8 * (exponent - 3))\<close>.
\<close>

definition littleEndian :: "Buffer \<Rightarrow> nat" where
  "littleEndian bs = foldr (\<lambda>b acc. unat b + 256 * acc) bs 0"

definition hashValue :: "(Buffer \<Rightarrow> Buffer) \<Rightarrow> Buffer \<Rightarrow> nat" where
  "hashValue sha256sha256 buf = littleEndian (sha256sha256 buf)"

definition bitsExponent :: "Buffer \<Rightarrow> nat" where
  "bitsExponent buf = unat (buf ! 75)"

definition bitsCoefficient :: "Buffer \<Rightarrow> nat" where
  "bitsCoefficient buf = unat (buf ! 72) + 2 ^ 8 * unat (buf ! 73) + 2 ^ 16 * unat (buf ! 74)"

definition bitsTarget :: "Buffer \<Rightarrow> nat" where
  "bitsTarget buf = bitsCoefficient buf * 2 ^ (8 * (bitsExponent buf - 3))"

text \<open>The double SHA-256 digest of the genesis header, in the byte order of the digest.\<close>

definition BITCOIN_GENESIS_HEADER_DIGEST :: Buffer where
  "BITCOIN_GENESIS_HEADER_DIGEST =
     [0x6f, 0xe2, 0x8c, 0x0a, 0xb6, 0xf1, 0xb3, 0x72, 0xc1, 0xa6, 0xa2, 0x46, 0xae, 0x63, 0xf7, 0x4f,
      0x93, 0x1e, 0x83, 0x65, 0xe1, 0x5a, 0x08, 0x9c, 0x68, 0xd6, 0x19, 0x00, 0x00, 0x00, 0x00, 0x00]"

section \<open>Wire codec (\<open>p2p/messages.ts\<close>)\<close>

text \<open>
  \<open>sha256\<close> is the SHA-256 of Node's \<open>crypto\<close> module, a parameter. A buffer slice
  \<open>buffer.slice(a, b)\<close> is \<open>take (b - a) (drop a buffer)\<close>.
\<close>

definition bufSlice :: "Buffer \<Rightarrow> nat \<Rightarrow> nat \<Rightarrow> Buffer" where
  "bufSlice buf a b = take (b - a) (drop a buf)"

definition calculateChecksum :: "(Buffer \<Rightarrow> Buffer) \<Rightarrow> Buffer \<Rightarrow> Buffer" where
  "calculateChecksum sha256 payload =
     (let hash = sha256 payload; doubleHash = sha256 hash in bufSlice doubleHash 0 4)"

text \<open>
  \<open>commandBuffer.write(command, 0, 'ascii')\<close> stores the low byte of each character and
  stops at the end of the 12 bytes; \<open>toString('ascii')\<close> clears the top bit of each byte.
\<close>

definition asciiWrite :: "nat \<Rightarrow> string \<Rightarrow> Buffer" where
  "asciiWrite n s = (let bytes = map (\<lambda>c. of_nat (of_char c)) (take n s)
                     in bytes @ replicate (n - length bytes) 0)"

definition asciiToString :: "Buffer \<Rightarrow> string" where
  "asciiToString bs = map (\<lambda>b. char_of (unat b mod 128)) bs"

text \<open>\<open>.replace(/\0+$/, '')\<close>\<close>

definition stripTrailingNuls :: "string \<Rightarrow> string" where
  "stripTrailingNuls s = rev (dropWhile (\<lambda>c. c = char_of (0::nat)) (rev s))"

definition writeUInt32LE :: "nat \<Rightarrow> error + Buffer" where
  "writeUInt32LE v =
     (if v < 2 ^ 32
      then Inr [of_nat (v mod 2 ^ 8), of_nat (v div 2 ^ 8 mod 2 ^ 8),
                of_nat (v div 2 ^ 16 mod 2 ^ 8), of_nat (v div 2 ^ 24 mod 2 ^ 8)]
      else Inl RangeError)"

definition readUInt32LE :: "Buffer \<Rightarrow> nat \<Rightarrow> error + nat" where
  "readUInt32LE buf offset =
     (if offset + 4 \<le> length buf
      then Inr (unat (buf ! offset) + unat (buf ! (offset + 1)) * 2 ^ 8
                + unat (buf ! (offset + 2)) * 2 ^ 16 + unat (buf ! (offset + 3)) * 2 ^ 24)
      else Inl RangeError)"

definition buildMessage :: "(Buffer \<Rightarrow> Buffer) \<Rightarrow> Buffer \<Rightarrow> string \<Rightarrow> Buffer \<Rightarrow> error + Buffer" where
  "buildMessage sha256 magic command payload =
     (let commandBuffer = asciiWrite 12 command
      in bindE (writeUInt32LE (length payload)) (\<lambda>lengthBuffer.
           let checksum = calculateChecksum sha256 payload
           in Inr (magic @ commandBuffer @ lengthBuffer @ checksum @ payload)))"

record ParsedMessages =
  messages :: "(string \<times> Buffer) list"
  remaining :: Buffer
  errors :: "(string \<times> string) list"

text \<open>
  The loop of \<open>parseMessages\<close>, with the offset and the two lists it pushes to. Every
  turn either leaves the loop or moves the offset forward.
\<close>

function parseLoop ::
  "(Buffer \<Rightarrow> Buffer) \<Rightarrow> Buffer \<Rightarrow> Buffer \<Rightarrow> nat \<Rightarrow> (string \<times> Buffer) list \<Rightarrow> (string \<times> string) list
     \<Rightarrow> error + ParsedMessages" where
  "parseLoop sha256 buf magic offset msgs errs =
     (if offset + 24 \<le> length buf
      then if bufSlice buf offset (offset + 4) \<noteq> magic
           then parseLoop sha256 buf magic (offset + 1) msgs errs
           else
             let command = stripTrailingNuls (asciiToString (bufSlice buf (offset + 4) (offset + 16)))
             in case readUInt32LE buf (offset + 16) of
                  Inl e \<Rightarrow> Inl e
                | Inr len \<Rightarrow>
                    if offset + 24 + len > length buf
                    then Inr \<lparr>messages = msgs, remaining = drop offset buf, errors = errs\<rparr>
                    else
                      let payload = bufSlice buf (offset + 24) (offset + 24 + len);
                          checksum = bufSlice buf (offset + 20) (offset + 24)
                      in if calculateChecksum sha256 payload \<noteq> checksum
                         then parseLoop sha256 buf magic (offset + 24 + len) msgs
                                (errs @ [(command, ''Checksum mismatch for '' @ command)])
                         else parseLoop sha256 buf magic (offset + 24 + len)
                                (msgs @ [(command, payload)]) errs
      else Inr \<lparr>messages = msgs, remaining = drop offset buf, errors = errs\<rparr>)"
  by pat_completeness auto
termination
  by (relation "measure (\<lambda>(sha256, buf, magic, offset, msgs, errs). length buf - offset)") auto

declare parseLoop.simps [simp del]

definition parseMessages :: "(Buffer \<Rightarrow> Buffer) \<Rightarrow> Buffer \<Rightarrow> Buffer \<Rightarrow> error + ParsedMessages" where
  "parseMessages sha256 buf magic = parseLoop sha256 buf magic 0 [] []"

text \<open>The frames of a list of messages, one after the other.\<close>

fun frames :: "(Buffer \<Rightarrow> Buffer) \<Rightarrow> Buffer \<Rightarrow> (string \<times> Buffer) list \<Rightarrow> error + Buffer" where
  "frames sha256 magic [] = Inr []"
| "frames sha256 magic ((command, payload) # rest) =
     bindE (buildMessage sha256 magic command payload) (\<lambda>frame.
     bindE (frames sha256 magic rest) (\<lambda>more. Inr (frame @ more)))"

text \<open>An ASCII command of at most 12 characters, none of them NUL.\<close>

definition asciiCommand :: "string \<Rightarrow> bool" where
  "asciiCommand c = (length c \<le> 12 \<and> (\<forall>ch \<in> set c. ch \<noteq> char_of (0::nat) \<and> (of_char ch :: nat) < 128))"

text \<open>A header object after \<open>setHeight\<close> and \<open>setWorkTotal\<close>.\<close>

definition linked :: "BlockHeaderMutable \<Rightarrow> nat \<Rightarrow> nat \<Rightarrow> BlockHeaderMutable" where
  "linked header x y = header\<lparr>heightOpt := Some x, workTotalOpt := Some y\<rparr>"

text \<open>The graph that \<open>fromGenesis\<close> builds.\<close>

definition genesisGraph :: "string set \<Rightarrow> BlockHeadersDatabase" where
  "genesisGraph invalid =
     \<lparr>invalidBlocks = invalid,
      allHeaders = [BITCOIN_GENESIS_HEADER_HASH_HEX \<mapsto> genesisHeader],
      headersTree = [BITCOIN_GENESIS_HEADER_HASH_HEX \<mapsto> []],
      headersTreeLeafHashes = [BITCOIN_GENESIS_HEADER_HASH_HEX],
      sortedHeaders = [genesisHeader],
      sortedHeadersIndex = [(BITCOIN_GENESIS_HEADER_HASH_HEX, 0)]\<rparr>"

section \<open>The losing branches of a graph\<close>

text \<open>
  The losing branches, read off the graph and not off \<open>pruneBranches\<close>: from a leaf other
  than the tip of the longest chain, step from a header to its parent (the stored header's
  \<open>prevHashHex\<close>) for as long as the hashes met are not in the index of the longest
  chain. \<open>ancestorHash st k n\<close> is the hash reached from \<open>k\<close> after \<open>n\<close> steps.
\<close>

fun ancestorHash :: "BlockHeadersDatabase \<Rightarrow> string \<Rightarrow> nat \<Rightarrow> string" where
  "ancestorHash st k 0 = k"
| "ancestorHash st k (Suc n) =
     (case allHeaders st k of
        None \<Rightarrow> k
      | Some header \<Rightarrow> ancestorHash st (prevHashHex header) n)"

definition onLongestChain :: "BlockHeadersDatabase \<Rightarrow> string \<Rightarrow> bool" where
  "onLongestChain st k \<longleftrightarrow> map_of (sortedHeadersIndex st) k \<noteq> None"

definition branchBelow :: "BlockHeadersDatabase \<Rightarrow> string \<Rightarrow> string set" where
  "branchBelow st l = {ancestorHash st l n | n. \<forall>i \<le> n. \<not> onLongestChain st (ancestorHash st l i)}"

definition losingBranchHashes :: "BlockHeadersDatabase \<Rightarrow> string set" where
  "losingBranchHashes st =
     (\<Union>l \<in> set (headersTreeLeafHashes st) - {hashHex (last (sortedHeaders st))}. branchBelow st l)"

section \<open>Theorems\<close>

subsection \<open>C9: the mass-disconnect threshold\<close>

text \<open>
  C9 as stated: the disconnect counts as a network blip exactly when
  \<open>remaining + floor (before / 2) - 1 < before\<close>. This fails when a single session
  was connected and it drops (\<open>before = 0\<close>, \<open>remaining = 0\<close>): the code clamps the
  threshold at zero, so \<open>0 + 0 < 0\<close> is false and no blip is assumed, while the
  formula of the claim gives \<open>-1 < 0\<close>.
\<close>

theorem C9_counterexample:
  "\<not> (otherDisconnectsWhileWaiting 0 0 \<longleftrightarrow> (0 + 0 div 2 - 1 < (0::int)))"
  by (simp add: otherDisconnectsWhileWaiting_def otherDisconnectsWhileWaitingThreshold_def)

text \<open>
  C9 (amended): for non-negative counts the blip is assumed exactly when
  \<open>remaining + max 0 (floor (before / 2) - 1) < before\<close>; for \<open>before \<ge> 2\<close> this is
  the formula of the claim, for \<open>before < 2\<close> it is \<open>remaining < before\<close>. The
  disconnect is recorded against the peer exactly when no blip is assumed and the
  internet check reported a connection.
\<close>

theorem C9_mass_disconnect_threshold:
  assumes "0 \<le> before" and "0 \<le> after"
  shows "(otherDisconnectsWhileWaiting before after \<longleftrightarrow>
            (if 2 \<le> before then after + before div 2 - 1 < before
             else after < before))
       \<and> (recordsDisconnect online before after \<longleftrightarrow>
            online \<and> before \<le> after + max 0 (before div 2 - 1))"
  using assms
  unfolding recordsDisconnect_def otherDisconnectsWhileWaiting_def
    otherDisconnectsWhileWaitingThreshold_def
  by (auto simp: max_def)

theorem C9_mass_disconnect_threshold_witness:
  "otherDisconnectsWhileWaiting 7 4 \<and> \<not> otherDisconnectsWhileWaiting 7 5
   \<and> recordsDisconnect True 7 5 \<and> \<not> recordsDisconnect True 7 4"
  using C9_mass_disconnect_threshold [of 7 4 True] C9_mass_disconnect_threshold [of 7 5 True]
  by simp

subsection \<open>C10: unknown peers are never blacklisted\<close>

lemma ratedKnown_loadMetrics:
  "ipPortStringToRating db = Map.empty \<Longrightarrow> ipPortStringToRating (loadMetrics h db xs) = Map.empty"
  by (induction h db xs rule: loadMetrics.induct) auto

lemma ratedKnown_buildRatings:
  "ratedKnown db \<Longrightarrow> buildRatingsMapsFromMetrics c db t n = Some db' \<Longrightarrow> ratedKnown db'"
  by (auto simp: buildRatingsMapsFromMetrics_def ratedKnown_def split: if_splits)

lemma ratedKnown_create: "create c h stored t n = Some db \<Longrightarrow> ratedKnown db"
  unfolding create_def buildMapsFromMetrics_def
  by (rule ratedKnown_buildRatings[rotated], assumption)
     (simp add: ratedKnown_def ratedKnown_loadMetrics newNodesDatabase_def)

lemma ratedKnown_recalculate: "ratedKnown db \<Longrightarrow> ratedKnown (recalculateNodeRating c db k t)"
  by (auto simp: recalculateNodeRating_def ratedKnown_def Let_def split: option.splits)

lemma updateLatest_maps:
  "ipPortStringToMetrics (updateLatest h db xs) = ipPortStringToMetrics db
   \<and> ipPortStringToRating (updateLatest h db xs) = ipPortStringToRating db"
  by (induction h db xs rule: updateLatest.induct) auto

lemma ratedKnown_updateMaps: "ratedKnown db \<Longrightarrow> ratedKnown (updateMaps c db xs t)"
  by (induction c db xs t rule: updateMaps.induct) (auto simp: ratedKnown_def Let_def)

lemma ratedKnown_update: "ratedKnown db \<Longrightarrow> ratedKnown (updateMetricsBatch c h db xs t)"
  unfolding updateMetricsBatch_def
  by (rule ratedKnown_updateMaps) (simp add: ratedKnown_def updateLatest_maps)

lemma ratedKnown_delete: "ratedKnown db \<Longrightarrow> ratedKnown (deleteMetrics db k)"
  by (auto simp: deleteMetrics_def ratedKnown_def Let_def)

lemma ratedKnown_getDefault: "ratedKnown db \<Longrightarrow> ratedKnown (fst (getMetricsCopySetDefault c d db k t))"
  by (auto simp: getMetricsCopySetDefault_def ratedKnown_def Let_def split: option.splits)

lemma ratedKnown_clear: "ratedKnown (clear db)"
  by (simp add: clear_def ratedKnown_def)

lemma ratedKnown_clearOldLoop: "ratedKnown db \<Longrightarrow> ratedKnown (fst (clearOldLoop db ks))"
  by (induction db ks rule: clearOldLoop.induct) (auto simp: ratedKnown_def split: option.splits)

lemma ratedKnown_clearBlacklistedLoop: "ratedKnown db \<Longrightarrow> ratedKnown (fst (clearBlacklistedLoop db ks))"
proof (induction db ks rule: clearBlacklistedLoop.induct)
  case (2 db k rest)
  then show ?case by (auto simp: ratedKnown_def Let_def split: option.splits)
qed simp

lemma ratedKnown_recomputeLatest: "ratedKnown (fst r) \<Longrightarrow> ratedKnown (recomputeLatest h r)"
  by (cases r) (auto simp: recomputeLatest_def ratedKnown_def split: bool.splits)

lemma ratedKnown_reachable: "reachableNodes c h d db \<Longrightarrow> ratedKnown db"
proof (induction rule: reachableNodes.induct)
  case (r_create stored timeMs now db)
  then show ?case by (rule ratedKnown_create)
next
  case (r_clearOld db ks)
  then show ?case
    by (simp add: clearOld_def ratedKnown_recomputeLatest ratedKnown_clearOldLoop)
next
  case (r_clearBlacklisted db ks)
  then show ?case
    by (simp add: clearBlacklisted_def ratedKnown_recomputeLatest ratedKnown_clearBlacklistedLoop)
qed (simp_all add: ratedKnown_recalculate ratedKnown_buildRatings ratedKnown_update
       ratedKnown_delete ratedKnown_getDefault ratedKnown_clear)

text \<open>
  C10: in every database the class can reach, an address without a metrics record is not
  blacklisted, whatever the query time and whatever the threshold computed at start-up.
\<close>

theorem C10_unknown_peer_not_blacklisted:
  assumes "reachableNodes calculateRating getHighestMetricsTime createDefault db"
    and "\<not> has ipPortToString db ipPort"
  shows "snd (isBlacklisted calculateRating blacklistedRatingThreshold ipPortToString db ipPort timeMs) = False"
  using ratedKnown_reachable[OF assms(1)] assms(2)
  by (auto simp: isBlacklisted_def has_def recalculateNodeRating_def ratedKnown_def Let_def
      split: option.splits)

lemma create_example: "create (\<lambda>m l t. m) (\<lambda>m. 1) [(''a:8333'', 0.25)] 0 0 =
   Some \<lparr>ipPortStringToRating = [''a:8333'' \<mapsto> 0.25], ipPortStringToMetrics = [''a:8333'' \<mapsto> 0.25],
         timeOfLastRatingsUpdateMs = 0, latestMetricsUpdateTimeMs = 1\<rparr>"
  by (simp add: create_def buildMapsFromMetrics_def buildRatingsMapsFromMetrics_def newNodesDatabase_def fun_eq_iff)

theorem C10_unknown_peer_not_blacklisted_witness:
  "\<not> has (\<lambda>x. x) \<lparr>ipPortStringToRating = [''a:8333'' \<mapsto> 0.25], ipPortStringToMetrics = [''a:8333'' \<mapsto> 0.25::real],
         timeOfLastRatingsUpdateMs = 0, latestMetricsUpdateTimeMs = 1\<rparr> ''b:8333''
   \<and> snd (isBlacklisted (\<lambda>m l t. m) 0.5 (\<lambda>x. x) \<lparr>ipPortStringToRating = [''a:8333'' \<mapsto> 0.25], ipPortStringToMetrics = [''a:8333'' \<mapsto> 0.25],
         timeOfLastRatingsUpdateMs = 0, latestMetricsUpdateTimeMs = 1\<rparr> ''b:8333'' 7) = False
   \<and> snd (isBlacklisted (\<lambda>m l t. m) 0.5 (\<lambda>x. x) \<lparr>ipPortStringToRating = [''a:8333'' \<mapsto> 0.25], ipPortStringToMetrics = [''a:8333'' \<mapsto> 0.25],
         timeOfLastRatingsUpdateMs = 0, latestMetricsUpdateTimeMs = 1\<rparr> ''a:8333'' 7) = True"
proof -
  have r: "reachableNodes (\<lambda>m l t. m) (\<lambda>m. 1) (\<lambda>t. 0.5) \<lparr>ipPortStringToRating = [''a:8333'' \<mapsto> 0.25], ipPortStringToMetrics = [''a:8333'' \<mapsto> 0.25::real],
         timeOfLastRatingsUpdateMs = 0, latestMetricsUpdateTimeMs = 1\<rparr>"
    by (rule r_create[OF create_example])
  have h: "\<not> has (\<lambda>x. x) \<lparr>ipPortStringToRating = [''a:8333'' \<mapsto> 0.25], ipPortStringToMetrics = [''a:8333'' \<mapsto> 0.25::real],
         timeOfLastRatingsUpdateMs = 0, latestMetricsUpdateTimeMs = 1\<rparr> ''b:8333''"
    by (simp add: has_def)
  show ?thesis using C10_unknown_peer_not_blacklisted[OF r h, of "0.5" 7] h
    by (simp add: isBlacklisted_def recalculateNodeRating_def Let_def)
qed

subsection \<open>C8: \<open>out_of_sync\<close> on an empty headers response\<close>

lemma getHeaderTip_linearChain: "getHeaderTip (linearChain n) = Inr (linearHeader n)"
  by (simp add: getHeaderTip_def linearChain_def last_map del: upt_Suc)

lemma height_linearHeader: "height (linearHeader i) = Inr i"
  by (simp add: linearHeader_def height_def genesisHeader_def)

lemma hashHex_linearHeader: "hashHex (linearHeader i) = blockHash i"
  by (simp add: linearHeader_def blockHash_def genesisHeader_def exampleHeader_def)

lemma blockHash_inj: "blockHash i = blockHash j \<longleftrightarrow> i = j"
proof -
  have ne: "replicate i CHR ''b'' \<noteq> BITCOIN_GENESIS_HEADER_HASH_HEX" for i
  proof
    assume "replicate i CHR ''b'' = BITCOIN_GENESIS_HEADER_HASH_HEX"
    then have "CHR ''0'' \<in> set (replicate i CHR ''b'')" by (simp add: BITCOIN_GENESIS_HEADER_HASH_HEX_def)
    then show False by auto
  qed
  then have "BITCOIN_GENESIS_HEADER_HASH_HEX \<noteq> replicate i CHR ''b''" for i
    by metis
  with ne show ?thesis
    by (auto simp: blockHash_def dest: arg_cong[where f=length])
qed

lemma lookup_linearChain:
  "i \<le> n \<Longrightarrow> getHeaderFromHashHex (linearChain n) (blockHash i) = Some (linearHeader i)"
proof -
  assume "i \<le> n"
  have "map_of (map (\<lambda>i. (blockHash i, linearHeader i)) xs) (blockHash i) = (if i \<in> set xs then Some (linearHeader i) else None)" for xs
    by (induction xs) (auto simp: blockHash_inj)
  with \<open>i \<le> n\<close> show ?thesis by (simp add: getHeaderFromHashHex_def linearChain_def del: upt_Suc)
qed

text \<open>
  C8 as stated: \<open>out_of_sync\<close> is emitted when the peer's tip differs from both tips and is
  at least 100 blocks below the graph's tip. On the linear chain of height 101 with the
  peer's tip at height 1 (exactly 100 below, different from the genesis it started with and
  from the tip) and no abort, nothing is emitted: the code asks for
  \<open>nodeTipHeight + 100 < chainTipHeight\<close>.
\<close>

theorem C8_counterexample:
  "emitsOutOfSync \<lparr>tipHashHex = blockHash 1, startingTipHashHex = blockHash 0\<rparr> (linearChain 101) False
     = Inr False
   \<and> blockHash 1 \<noteq> blockHash 0
   \<and> getHeaderTip (linearChain 101) = Inr (linearHeader 101)
   \<and> blockHash 1 \<noteq> hashHex (linearHeader 101)
   \<and> height (linearHeader 101) = Inr 101
   \<and> getHeaderFromHashHex (linearChain 101) (blockHash 1) = Some (linearHeader 1)
   \<and> height (linearHeader 1) = Inr 1
   \<and> (1::nat) + 100 \<le> 101"
  using lookup_linearChain[of 1 101]
  by (simp add: emitsOutOfSync_def getHeaderTip_linearChain height_linearHeader
      hashHex_linearHeader bindE_def blockHash_inj)

text \<open>
  C8 (amended): on an empty response, if the abort signal of the sync is set the loop throws
  \<open>Aborted\<close> and emits nothing; otherwise \<open>out_of_sync\<close> is emitted exactly when the
  session's recorded peer tip differs from both the starting tip and the graph's current
  tip and the peer's tip height (0 when the graph does not know the hash) is more than 100
  below the graph's tip height.
\<close>

theorem C8_out_of_sync:
  assumes "getHeaderTip db = Inr tip" and "height tip = Inr chainTipHeight"
    and "(case getHeaderFromHashHex db (tipHashHex this) of
            None \<Rightarrow> Inr 0 | Some header \<Rightarrow> height header) = Inr nodeTipHeight"
  shows "emitsOutOfSync this db signalAborted =
           (if signalAborted then Inl Aborted
            else Inr (tipHashHex this \<noteq> startingTipHashHex this \<and> tipHashHex this \<noteq> hashHex tip
                      \<and> nodeTipHeight + 100 < chainTipHeight))"
  using assms by (auto simp: emitsOutOfSync_def bindE_def)

theorem C8_out_of_sync_witness:
  "emitsOutOfSync \<lparr>tipHashHex = blockHash 1, startingTipHashHex = blockHash 0\<rparr> (linearChain 102) False
     = Inr True
   \<and> emitsOutOfSync \<lparr>tipHashHex = blockHash 1, startingTipHashHex = blockHash 0\<rparr> (linearChain 101) False
     = Inr False
   \<and> emitsOutOfSync \<lparr>tipHashHex = blockHash 1, startingTipHashHex = blockHash 0\<rparr> (linearChain 102) True
     = Inl Aborted"
  using C8_out_of_sync[of "linearChain 102" "linearHeader 102" 102
          "\<lparr>tipHashHex = blockHash 1, startingTipHashHex = blockHash 0\<rparr>" 1 False]
        C8_out_of_sync[of "linearChain 101" "linearHeader 101" 101
          "\<lparr>tipHashHex = blockHash 1, startingTipHashHex = blockHash 0\<rparr>" 1 False]
        C8_out_of_sync[of "linearChain 102" "linearHeader 102" 102
          "\<lparr>tipHashHex = blockHash 1, startingTipHashHex = blockHash 0\<rparr>" 1 True]
        lookup_linearChain[of 1 102] lookup_linearChain[of 1 101]
  by (simp add: getHeaderTip_linearChain height_linearHeader hashHex_linearHeader blockHash_inj)

subsection \<open>C7: parsing a header with the proof-of-work check\<close>

lemma byte_lt: "unat (b::byte) < 256"
  using unsigned_less[of b, where 'a=nat] by simp

lemma byte_digits: "unat (b::byte) div 16 < 16" "unat b mod 16 < 16"
  using byte_lt[of b] by (auto simp: less_mult_imp_div_less)

lemma hexValue_hexDigit: "n < 16 \<Longrightarrow> hexValue (hexDigit n) = Some n"
  by (auto simp: hexValue_def hexDigit_def Let_def)

lemma bigIntDigits_toHex:
  "bigIntDigits acc (toHex bs) = Inr (foldl (\<lambda>a b. a * 256 + unat b) acc bs)"
proof (induction bs arbitrary: acc)
  case Nil
  then show ?case by (simp add: toHex_def)
next
  case (Cons b bs)
  have "bigIntDigits acc (toHex (b # bs)) = bigIntDigits ((acc * 16 + unat b div 16) * 16 + unat b mod 16) (toHex bs)"
    using byte_digits[of b] by (simp add: toHex_def hexValue_hexDigit)
  also have "(acc * 16 + unat b div 16) * 16 + unat b mod 16 = acc * 256 + unat b"
    by (simp add: algebra_simps)
  finally show ?case using Cons.IH by simp
qed

lemma foldl_rev_littleEndian: "foldl (\<lambda>a b. a * 256 + unat b) 0 (rev bs) = littleEndian bs"
  by (induction bs) (simp_all add: littleEndian_def)

lemma toHex_Nil_iff: "toHex bs = [] \<longleftrightarrow> bs = []"
  by (cases bs) (simp_all add: toHex_def)

lemma bigIntOfHex_toHex_rev:
  "bs \<noteq> [] \<Longrightarrow> bigIntOfHex (toHex (rev bs)) = Inr (littleEndian bs)"
  by (simp add: bigIntOfHex_def toHex_Nil_iff bigIntDigits_toHex foldl_rev_littleEndian)

lemma of_char_hexDigit: "n < 16 \<Longrightarrow> (of_char (hexDigit n) :: nat) = (if n < 10 then 48 + n else 87 + n)"
  by (simp add: hexDigit_def)

lemma hexDigit_not_x: "n < 16 \<Longrightarrow> hexDigit n \<noteq> CHR ''x''"
proof
  assume "n < 16" and "hexDigit n = CHR ''x''"
  then have "(if n < 10 then 48 + n else 87 + n) = (of_char CHR ''x'' :: nat)"
    using of_char_hexDigit[of n] by simp
  with \<open>n < 16\<close> show False by (simp split: if_splits)
qed

lemma toHex_no_0x: "take 2 (toHex bs) \<noteq> ''0x''"
proof (cases bs)
  case Nil then show ?thesis by (simp add: toHex_def)
next
  case (Cons b bs')
  then show ?thesis using hexDigit_not_x[OF byte_digits(2)[of b]] by (simp add: toHex_def)
qed

lemma verifyProofOfWork_toHex:
  "bs \<noteq> [] \<Longrightarrow> verifyProofOfWork (toHex (rev bs)) target = Inr (littleEndian bs \<le> target)"
  by (simp add: verifyProofOfWork_def assert_def bindE_def toHex_no_0x bigIntOfHex_toHex_rev)

lemma bits_decode:
  assumes "length buf = 80"
  shows "decodeTargetFromBitsBuffer (rev (take 4 (drop 72 buf))) =
    (if bitsExponent buf < 3 then Inl RangeError else Inr (bitsCoefficient buf * 2 ^ (8 * (bitsExponent buf - 3))))"
proof -
  have "take 4 (drop 72 buf) = [buf ! 72, buf ! 73, buf ! 74, buf ! 75]"
    using assms by (intro nth_equalityI) (auto simp: less_Suc_eq numeral_Bit0 numeral_Bit1 nth_Cons')
  then have l: "rev (take 4 (drop 72 buf)) = [buf ! 75, buf ! 74, buf ! 73, buf ! 72]" by simp
  have r: "readUInt32BE (rev (take 4 (drop 72 buf))) 0 = Inr (unat (buf ! 75) * 2 ^ 24 + bitsCoefficient buf)"
    unfolding readUInt32BE_def l by (simp add: bitsCoefficient_def numeral_2_eq_2 numeral_3_eq_3)
  have c: "bitsCoefficient buf < 2 ^ 24"
    using byte_lt[of "buf ! 72"] byte_lt[of "buf ! 73"] byte_lt[of "buf ! 74"] by (simp add: bitsCoefficient_def)
  have e: "(unat (buf ! 75) * 2 ^ 24 + bitsCoefficient buf) div 2 ^ 24 = unat (buf ! 75)"
    using c by simp
  have m: "(unat (buf ! 75) * 2 ^ 24 + bitsCoefficient buf) mod 2 ^ 24 = bitsCoefficient buf"
    using c by simp
  have e2: "unat (buf ! 75) mod 2 ^ 8 = unat (buf ! 75)" using byte_lt[of "buf ! 75"] by simp
  show ?thesis
    unfolding decodeTargetFromBitsBuffer_def r bindE_def
    by (simp only: sum.case Let_def e m e2 bitsExponent_def)
qed


lemma hexDigit_zero_iff: "n < 16 \<Longrightarrow> hexDigit n = CHR ''0'' \<longleftrightarrow> n = 0"
proof
  assume "n < 16" and "hexDigit n = CHR ''0''"
  then have "(if n < 10 then 48 + n else 87 + n) = (of_char CHR ''0'' :: nat)"
    using of_char_hexDigit[of n] by simp
  with \<open>n < 16\<close> show "n = 0" by (simp split: if_splits)
next
  have "char_of (48::nat) = CHR ''0''" by code_simp
  then show "n = 0 \<Longrightarrow> hexDigit n = CHR ''0''" by (simp add: hexDigit_def)
qed

lemma byte_zero_iff: "unat (b::byte) div 16 = 0 \<and> unat b mod 16 = 0 \<longleftrightarrow> b = 0"
proof
  assume "unat b div 16 = 0 \<and> unat b mod 16 = 0"
  then have "unat b = 0" using div_mult_mod_eq[of "unat b" 16] by simp
  then show "b = 0" by (simp add: unat_eq_0)
qed simp

lemma toHex_zeros_iff:
  "toHex bs = replicate (2 * length bs) CHR ''0'' \<longleftrightarrow> bs = replicate (length bs) 0"
proof (induction bs)
  case Nil
  then show ?case by (simp add: toHex_def)
next
  case (Cons b bs)
  have "toHex (b # bs) = hexDigit (unat b div 16) # hexDigit (unat b mod 16) # toHex bs"
    by (simp add: toHex_def)
  then show ?case
    using Cons.IH byte_zero_iff[of b] byte_digits[of b]
    by (auto simp: hexDigit_zero_iff)
qed

lemma prevHash_zero_iff:
  assumes "length buf = 80"
  shows "toHex (rev (take 32 (drop 4 buf))) = GENESIS_PREV_HASH_HEX \<longleftrightarrow> take 32 (drop 4 buf) = replicate 32 0"
proof -
  have l: "length (rev (take 32 (drop 4 buf))) = 32" using assms by simp
  have "toHex (rev (take 32 (drop 4 buf))) = GENESIS_PREV_HASH_HEX \<longleftrightarrow> rev (take 32 (drop 4 buf)) = replicate 32 0"
    using toHex_zeros_iff[of "rev (take 32 (drop 4 buf))"] unfolding l by (simp add: GENESIS_PREV_HASH_HEX_def)
  also have "\<dots> \<longleftrightarrow> take 32 (drop 4 buf) = replicate 32 0"
    by (metis rev_replicate rev_rev_ident)
  finally show ?thesis .
qed

lemma fromBuffer_cases:
  assumes "\<And>b. sha256sha256 b \<noteq> []"
  shows "fromBuffer sha256sha256 buf False =
     (if length buf \<noteq> 80 then Inl (InvalidBufferLength (length buf))
      else if bitsExponent buf < 3 then Inl RangeError
      else if \<not> hashValue sha256sha256 buf \<le> bitsTarget buf then Inl InvalidProofOfWork
      else if take 32 (drop 4 buf) = replicate 32 0 \<and> bitsTarget buf = 0 then Inl AssertionExit
      else Inr \<lparr>buffer = buf, prevHashHex = toHex (rev (take 32 (drop 4 buf))),
                hashHex = toHex (rev (sha256sha256 buf)),
                workTotalOpt = (if take 32 (drop 4 buf) = replicate 32 0 then Some (2 ^ 256 div bitsTarget buf) else None),
                heightOpt = (if take 32 (drop 4 buf) = replicate 32 0 then Some 0 else None)\<rparr>)"
proof (cases "length buf = 80")
  case False
  then show ?thesis by (simp add: fromBuffer_def newBlockHeaderMutable_def HEADER_BUFFER_LENGTH_def)
next
  case True
  note bd = bits_decode[OF True]
  note pz = prevHash_zero_iff[OF True]
  note vp = verifyProofOfWork_toHex[OF assms, of buf]
  let ?hdr = "\<lparr>buffer = buf, prevHashHex = toHex (rev (take 32 (drop 4 buf))),
                hashHex = toHex (rev (sha256sha256 buf)), workTotalOpt = None, heightOpt = None\<rparr>"
  have bb: "bitsBuffer ?hdr = rev (take 4 (drop 72 buf))" by (simp add: bitsBuffer_def)
  have pow: "(if \<not> False
                  then bindE (decodeTargetFromBitsBuffer (bitsBuffer ?hdr)) (\<lambda>target.
                       bindE (verifyProofOfWork (hashHex ?hdr) target) (\<lambda>ok.
                         if \<not> ok then Inl InvalidProofOfWork else Inr ()))
                  else Inr ()) =
      (if bitsExponent buf < 3 then Inl RangeError
       else if \<not> hashValue sha256sha256 buf \<le> bitsTarget buf then Inl InvalidProofOfWork else Inr ())"
    by (simp add: bb bd vp bindE_def hashValue_def bitsTarget_def)
  have gen: "(if prevHashHex ?hdr = GENESIS_PREV_HASH_HEX
           then bindE (setHeight ?hdr 0) (\<lambda>this.
                bindE (work this) (\<lambda>w. setWorkTotal this w))
           else Inr ?hdr) =
      (if take 32 (drop 4 buf) = replicate 32 0
       then (if bitsExponent buf < 3 then Inl RangeError
             else if bitsTarget buf = 0 then Inl AssertionExit
             else Inr (?hdr\<lparr>workTotalOpt := Some (2 ^ 256 div bitsTarget buf), heightOpt := Some 0\<rparr>))
       else Inr ?hdr)"
    by (simp add: pz setHeight_def bindE_def work_def bitsBuffer_def bd calculateWorkFromTarget_def
          assert_def setWorkTotal_def bitsTarget_def)
  have "fromBuffer sha256sha256 buf False =
      bindE (if bitsExponent buf < 3 then Inl RangeError
       else if \<not> hashValue sha256sha256 buf \<le> bitsTarget buf then Inl InvalidProofOfWork else Inr ())
       (\<lambda>_. if take 32 (drop 4 buf) = replicate 32 0
       then (if bitsExponent buf < 3 then Inl RangeError
             else if bitsTarget buf = 0 then Inl AssertionExit
             else Inr (?hdr\<lparr>workTotalOpt := Some (2 ^ 256 div bitsTarget buf), heightOpt := Some 0\<rparr>))
       else Inr ?hdr)"
    unfolding fromBuffer_def newBlockHeaderMutable_def Let_def pow gen
    using True by (simp add: HEADER_BUFFER_LENGTH_def)
  then show ?thesis using True by (simp add: bindE_def)
qed


lemma genesis_hashHex: "toHex (rev BITCOIN_GENESIS_HEADER_DIGEST) = BITCOIN_GENESIS_HEADER_HASH_HEX"
  by code_simp
lemma genesis_prevHashHex: "toHex (replicate 32 0) = GENESIS_PREV_HASH_HEX"
  by code_simp
lemma genesis_bits: "bitsExponent BITCOIN_GENESIS_HEADER_BUFFER = 29" "bitsCoefficient BITCOIN_GENESIS_HEADER_BUFFER = 65535"
  by (simp_all add: bitsExponent_def bitsCoefficient_def BITCOIN_GENESIS_HEADER_BUFFER_def nth_append)
lemma genesis_prev_zero: "take 32 (drop 4 BITCOIN_GENESIS_HEADER_BUFFER) = replicate 32 0"
  by (simp add: BITCOIN_GENESIS_HEADER_BUFFER_def)
lemma genesis_hashValue: "hashValue (\<lambda>_. BITCOIN_GENESIS_HEADER_DIGEST) b \<le> 65535 * 2 ^ 208"
  by (simp add: hashValue_def littleEndian_def BITCOIN_GENESIS_HEADER_DIGEST_def)
lemma genesis_work_value: "(2::nat) ^ 256 div (65535 * 2 ^ 208) = 4295032833"
  by simp
lemma genesis_length: "length BITCOIN_GENESIS_HEADER_BUFFER = 80"
  by (simp add: BITCOIN_GENESIS_HEADER_BUFFER_def)
lemma genesis_parse:
  "fromBuffer (\<lambda>_. BITCOIN_GENESIS_HEADER_DIGEST) BITCOIN_GENESIS_HEADER_BUFFER False = Inr genesisHeader"
proof -
  have ne: "\<And>b. (\<lambda>_. BITCOIN_GENESIS_HEADER_DIGEST) b \<noteq> []"
    by (simp add: BITCOIN_GENESIS_HEADER_DIGEST_def)
  have t: "bitsTarget BITCOIN_GENESIS_HEADER_BUFFER = 65535 * 2 ^ 208"
    by (simp add: bitsTarget_def genesis_bits)
  show ?thesis
    unfolding fromBuffer_cases[OF ne] t
    by (simp only: genesis_length genesis_bits genesis_prev_zero genesis_hashValue genesis_work_value
          genesis_hashHex genesisHeader_def)
       (simp add: genesis_prevHashHex)
qed

text \<open>
  C7: a buffer is either parsed, or fails with an invalid length or an invalid proof of
  work. The code breaks this on buffers whose bits have an exponent below 3. Eighty zero
  bytes have the exponent 0: \<open>decodeTargetFromBitsBuffer\<close> raises \<open>2\<close> to \<open>-24\<close> and
  the constructor ends with a \<open>RangeError\<close>, which is neither of the two failures,
  whatever the digest is (here a stand-in that returns 32 bytes \<open>ff\<close>).
\<close>

theorem C7_range_error_below_exponent_3:
  "fromBuffer (\<lambda>_. replicate 32 0xff) (replicate 80 0x00) False = Inl RangeError
   \<and> length (replicate 80 0x00 :: Buffer) = 80"
  by (subst fromBuffer_cases) (simp_all add: bitsExponent_def)

text \<open>
  What the constructor does on every buffer, for reference: on the designed path
  (exponent at least 3, target not zero) it accepts exactly the 80-byte buffers whose digest,
  read as a number, is at most \<open>coefficient * 2 ^ (8 * (exponent - 3))\<close>, and rejects the
  others with the invalid-length or the invalid-proof-of-work error.
\<close>

lemma fromBuffer_proof_of_work:
  assumes "\<And>b. length (sha256sha256 b) = 32"
  shows "((\<exists>header. fromBuffer sha256sha256 buf False = Inr header) \<longleftrightarrow>
            length buf = 80 \<and> 3 \<le> bitsExponent buf
            \<and> hashValue sha256sha256 buf \<le> bitsCoefficient buf * 2 ^ (8 * (bitsExponent buf - 3))
            \<and> \<not> (bitsCoefficient buf = 0 \<and> take 32 (drop 4 buf) = replicate 32 0))
       \<and> (length buf \<noteq> 80 \<longrightarrow>
            fromBuffer sha256sha256 buf False = Inl (InvalidBufferLength (length buf)))
       \<and> (length buf = 80 \<and> bitsExponent buf < 3 \<longrightarrow>
            fromBuffer sha256sha256 buf False = Inl RangeError)
       \<and> (length buf = 80 \<and> 3 \<le> bitsExponent buf
            \<and> \<not> hashValue sha256sha256 buf \<le> bitsCoefficient buf * 2 ^ (8 * (bitsExponent buf - 3)) \<longrightarrow>
            fromBuffer sha256sha256 buf False = Inl InvalidProofOfWork)"
proof -
  have ne: "\<And>b. sha256sha256 b \<noteq> []" using assms by (metis length_0_conv zero_neq_numeral)
  show ?thesis
    unfolding fromBuffer_cases[OF ne]
    by (auto simp: bitsTarget_def)
qed

lemma fromBuffer_genesis_accepted:
  "fromBuffer (\<lambda>_. BITCOIN_GENESIS_HEADER_DIGEST) BITCOIN_GENESIS_HEADER_BUFFER False = Inr genesisHeader
   \<and> hashValue (\<lambda>_. BITCOIN_GENESIS_HEADER_DIGEST) BITCOIN_GENESIS_HEADER_BUFFER
       \<le> bitsCoefficient BITCOIN_GENESIS_HEADER_BUFFER * 2 ^ (8 * (bitsExponent BITCOIN_GENESIS_HEADER_BUFFER - 3))"
proof -
  have l: "\<And>b. length ((\<lambda>_. BITCOIN_GENESIS_HEADER_DIGEST) b) = 32"
    by (simp add: BITCOIN_GENESIS_HEADER_DIGEST_def)
  show ?thesis
    using fromBuffer_proof_of_work[of "\<lambda>_. BITCOIN_GENESIS_HEADER_DIGEST" BITCOIN_GENESIS_HEADER_BUFFER, OF l]
      genesis_parse by blast
qed

subsection \<open>C6: deframing the concatenation of frames\<close>

lemma ascii_char_roundtrip:
  assumes "(of_char ch :: nat) < 128"
  shows "char_of (unat (of_nat (of_char ch) :: byte) mod 128) = ch"
proof -
  have "unat (of_nat (of_char ch) :: byte) = of_char ch"
    using assms by (simp add: unat_of_nat)
  then show ?thesis using assms by simp
qed

lemma asciiToString_asciiWrite:
  assumes "asciiCommand c"
  shows "asciiToString (asciiWrite 12 c) = c @ replicate (12 - length c) (char_of (0::nat))"
proof -
  have "map (\<lambda>b. char_of (unat b mod 128)) (map (\<lambda>c. of_nat (of_char c) :: byte) c) = c"
    using assms by (induction c) (auto simp: asciiCommand_def ascii_char_roundtrip)
  then show ?thesis
    using assms by (simp add: asciiToString_def asciiWrite_def asciiCommand_def Let_def)
qed

lemma stripTrailingNuls_padded:
  assumes "\<forall>ch \<in> set c. ch \<noteq> char_of (0::nat)"
  shows "stripTrailingNuls (c @ replicate k (char_of (0::nat))) = c"
proof -
  have "dropWhile (\<lambda>ch. ch = char_of (0::nat)) (replicate k (char_of (0::nat)) @ rev c) = rev c"
    using assms by (cases "rev c") (auto simp: dropWhile_append3 dropWhile_append)
  then show ?thesis by (simp add: stripTrailingNuls_def)
qed

lemma command_roundtrip:
  "asciiCommand c \<Longrightarrow> stripTrailingNuls (asciiToString (asciiWrite 12 c)) = c"
  by (simp add: asciiToString_asciiWrite stripTrailingNuls_padded asciiCommand_def)

lemma length_asciiWrite: "length (asciiWrite 12 c) = 12"
  by (simp add: asciiWrite_def Let_def)

lemma writeUInt32LE_length: "writeUInt32LE n = Inr bs \<Longrightarrow> length bs = 4"
  by (auto simp: writeUInt32LE_def split: if_splits)

lemma byte_of_nat_small: "x < 256 \<Longrightarrow> unat (of_nat x :: byte) = x"
  by (simp add: unat_of_nat)

lemma uint32_digits:
  fixes v :: nat
  assumes "v < 2 ^ 32"
  shows "v mod 256 + v div 256 mod 256 * 256 + v div 65536 mod 256 * 65536
           + v div 16777216 * 16777216 = v" and "v div 16777216 < 256"
proof -
  have a: "v = v mod 256 + 256 * (v div 256)" by simp
  have b: "v div 256 = v div 256 mod 256 + 256 * (v div 65536)"
    using div_mult2_eq[of v 256 256] by simp
  have c: "v div 65536 = v div 65536 mod 256 + 256 * (v div 16777216)"
    using div_mult2_eq[of v 65536 256] by simp
  show "v mod 256 + v div 256 mod 256 * 256 + v div 65536 mod 256 * 65536
           + v div 16777216 * 16777216 = v"
    using a b c by linarith
  show "v div 16777216 < 256" using assms by (simp add: less_mult_imp_div_less)
qed

lemma read_write_UInt32LE:
  assumes "writeUInt32LE v = Inr bs"
  shows "readUInt32LE (pre @ bs @ post) (length pre) = Inr v"
proof -
  from assms have v: "v < 2 ^ 32"
    and bs: "bs = [of_nat (v mod 256), of_nat (v div 256 mod 256),
                of_nat (v div 65536 mod 256), of_nat (v div 16777216 mod 256)]"
    by (auto simp: writeUInt32LE_def split: if_splits)
  have m: "v div 16777216 mod 256 = v div 16777216" using uint32_digits(2)[OF v] by simp
  have n: "(pre @ bs @ post) ! length pre = of_nat (v mod 256)"
    "(pre @ bs @ post) ! (length pre + 1) = of_nat (v div 256 mod 256)"
    "(pre @ bs @ post) ! (length pre + 2) = of_nat (v div 65536 mod 256)"
    "(pre @ bs @ post) ! (length pre + 3) = of_nat (v div 16777216)"
    unfolding bs m by (simp_all add: nth_append numeral_2_eq_2 numeral_3_eq_3)
  have l: "length pre + 4 \<le> length (pre @ bs @ post)" by (simp add: bs)
  show ?thesis
    unfolding readUInt32LE_def n
    using l uint32_digits[OF v]
    by (simp add: byte_of_nat_small)
qed


lemma slice_mid: "length a = i \<Longrightarrow> j = i + length b \<Longrightarrow> bufSlice (a @ b @ c) i j = b"
  by (simp add: bufSlice_def)

lemma length_calculateChecksum:
  "(\<And>b. length (sha256 b) = 32) \<Longrightarrow> length (calculateChecksum sha256 payload) = 4"
  by (simp add: calculateChecksum_def bufSlice_def Let_def)

lemma parseLoop_frame:
  assumes magic: "length magic = 4"
    and sha: "\<And>b. length (sha256 b) = 32"
    and cmd: "asciiCommand c"
    and frame: "buildMessage sha256 magic c p = Inr frame"
  shows "length frame = 24 + length p"
    and "parseLoop sha256 (pre @ frame @ post) magic (length pre) ms es =
         parseLoop sha256 (pre @ frame @ post) magic (length pre + length frame) (ms @ [(c, p)]) es"
proof -
  obtain lb where lb: "writeUInt32LE (length p) = Inr lb"
    and fr: "frame = magic @ asciiWrite 12 c @ lb @ calculateChecksum sha256 p @ p"
    using frame by (auto simp: buildMessage_def bindE_def Let_def split: sum.splits)
  note l4 = writeUInt32LE_length[OF lb]
  note lc = length_calculateChecksum[OF sha, where payload = p]
  show len: "length frame = 24 + length p"
    by (simp add: fr magic length_asciiWrite l4 lc)
  let ?buf = "pre @ frame @ post"
  let ?o = "length pre"
  have b1: "?buf = pre @ magic @ (asciiWrite 12 c @ lb @ calculateChecksum sha256 p @ p @ post)"
    by (simp add: fr)
  have b2: "?buf = (pre @ magic) @ asciiWrite 12 c @ (lb @ calculateChecksum sha256 p @ p @ post)"
    by (simp add: fr)
  have b3: "?buf = (pre @ magic @ asciiWrite 12 c) @ lb @ (calculateChecksum sha256 p @ p @ post)"
    by (simp add: fr)
  have b4: "?buf = (pre @ magic @ asciiWrite 12 c @ lb) @ calculateChecksum sha256 p @ (p @ post)"
    by (simp add: fr)
  have b5: "?buf = (pre @ magic @ asciiWrite 12 c @ lb @ calculateChecksum sha256 p) @ p @ post"
    by (simp add: fr)
  have s1: "bufSlice ?buf ?o (?o + 4) = magic"
    by (subst b1, rule slice_mid) (simp_all add: magic)
  have s2: "bufSlice ?buf (?o + 4) (?o + 16) = asciiWrite 12 c"
    by (subst b2, rule slice_mid) (simp_all add: magic length_asciiWrite)
  have s3: "readUInt32LE ?buf (?o + 16) = Inr (length p)"
    using read_write_UInt32LE[OF lb, of "pre @ magic @ asciiWrite 12 c" "calculateChecksum sha256 p @ p @ post"]
    by (simp add: fr magic length_asciiWrite)
  have s4: "bufSlice ?buf (?o + 20) (?o + 24) = calculateChecksum sha256 p"
    by (subst b4, rule slice_mid) (simp_all add: magic length_asciiWrite l4 lc)
  have s5: "bufSlice ?buf (?o + 24) (?o + 24 + length p) = p"
    by (subst b5, rule slice_mid) (simp_all add: magic length_asciiWrite l4 lc)
  have le: "?o + 24 \<le> length ?buf" "\<not> ?o + 24 + length p > length ?buf"
    using len by simp_all
  show "parseLoop sha256 ?buf magic ?o ms es =
         parseLoop sha256 ?buf magic (?o + length frame) (ms @ [(c, p)]) es"
    by (subst parseLoop.simps)
       (simp add: s1 s2 s3 s4 s5 s5[unfolded add.assoc] le len command_roundtrip[OF cmd] Let_def add.assoc)
qed

lemma parseLoop_frames:
  assumes magic: "length magic = 4"
    and sha: "\<And>b. length (sha256 b) = 32"
  shows "\<forall>(c, p) \<in> set msgs. asciiCommand c \<and> length p < 2 ^ 32 \<Longrightarrow>
     \<exists>fs. frames sha256 magic msgs = Inr fs \<and>
       (\<forall>pre ms es. parseLoop sha256 (pre @ fs) magic (length pre) ms es =
          Inr \<lparr>messages = ms @ msgs, remaining = [], errors = es\<rparr>)"
proof (induction msgs)
  case Nil
  show ?case by (simp add: parseLoop.simps)
next
  case (Cons m msgs)
  obtain c p where m: "m = (c, p)" by (cases m)
  from Cons.prems m have cmd: "asciiCommand c" and lp: "length p < 2 ^ 32" by auto
  from Cons obtain fs where fs: "frames sha256 magic msgs = Inr fs"
    and IH: "\<And>pre ms es. parseLoop sha256 (pre @ fs) magic (length pre) ms es =
          Inr \<lparr>messages = ms @ msgs, remaining = [], errors = es\<rparr>"
    by auto
  obtain frame where frame: "buildMessage sha256 magic c p = Inr frame"
    using lp by (auto simp: buildMessage_def writeUInt32LE_def bindE_def Let_def)
  have "parseLoop sha256 (pre @ frame @ fs) magic (length pre) ms es =
          Inr \<lparr>messages = ms @ (c, p) # msgs, remaining = [], errors = es\<rparr>" for pre ms es
    using parseLoop_frame(2)[OF magic sha cmd frame, of pre fs ms es]
      IH[of "pre @ frame" "ms @ [(c, p)]" es]
    by simp
  then show ?case by (simp add: m frame fs bindE_def)
qed

text \<open>
  C6: for every list of messages whose commands are ASCII strings of at most 12 non-NUL
  characters and whose payloads are shorter than \<open>2^32\<close> bytes, and every 4-byte magic,
  the frames can be built and deframing their concatenation returns the messages in order,
  an empty remaining buffer and no error.
\<close>

theorem C6_frame_roundtrip:
  assumes "length magic = 4" and "\<And>b. length (sha256 b) = 32"
    and "\<forall>(c, p) \<in> set msgs. asciiCommand c \<and> length p < 2 ^ 32"
  shows "\<exists>buf. frames sha256 magic msgs = Inr buf \<and>
     parseMessages sha256 buf magic = Inr \<lparr>messages = msgs, remaining = [], errors = []\<rparr>"
proof -
  have "\<exists>fs. frames sha256 magic msgs = Inr fs \<and>
       (\<forall>pre ms es. parseLoop sha256 (pre @ fs) magic (length pre) ms es =
          Inr \<lparr>messages = ms @ msgs, remaining = [], errors = es\<rparr>)"
    by (rule parseLoop_frames) (use assms in auto)
  then obtain fs where "frames sha256 magic msgs = Inr fs"
    and p: "\<And>pre ms es. parseLoop sha256 (pre @ fs) magic (length pre) ms es =
          Inr \<lparr>messages = ms @ msgs, remaining = [], errors = es\<rparr>" by blast
  then show ?thesis using p[of "[]" "[]" "[]"] by (auto simp: parseMessages_def)
qed

theorem C6_frame_roundtrip_witness:
  "\<exists>buf. frames (\<lambda>_. replicate 32 0x00) [0xe3, 0xe1, 0xf3, 0xe8]
            [(''ping'', [1, 2, 3, 4, 5, 6, 7, 8]), (''verack'', [])] = Inr buf \<and>
     parseMessages (\<lambda>_. replicate 32 0x00) buf [0xe3, 0xe1, 0xf3, 0xe8] =
       Inr \<lparr>messages = [(''ping'', [1, 2, 3, 4, 5, 6, 7, 8]), (''verack'', [])],
            remaining = [], errors = []\<rparr>"
  by (rule C6_frame_roundtrip) (simp_all add: asciiCommand_def char_of_def)

subsection \<open>Evaluating the examples\<close>

lemma work_exampleHeader [simp]: "work (exampleHeader h p) = Inr 4295032833"
  by (simp add: work_def exampleHeader_def bitsBuffer_def decodeTargetFromBitsBuffer_def readUInt32BE_def
      bindE_def calculateWorkFromTarget_def assert_def Let_def)

lemma work_genesisHeader [simp]: "work genesisHeader = Inr 4295032833"
  by (simp add: work_def genesisHeader_def bitsBuffer_def decodeTargetFromBitsBuffer_def readUInt32BE_def
      bindE_def calculateWorkFromTarget_def assert_def Let_def BITCOIN_GENESIS_HEADER_BUFFER_def)

lemma genesisHeader_fields [simp]:
  "hashHex genesisHeader = BITCOIN_GENESIS_HEADER_HASH_HEX"
  "prevHashHex genesisHeader = GENESIS_PREV_HASH_HEX"
  "heightOpt genesisHeader = Some 0"
  "workTotalOpt genesisHeader = Some 4295032833"
  by (simp_all add: genesisHeader_def)

lemma exampleHeader_fields [simp]:
  "hashHex (exampleHeader h p) = h"
  "prevHashHex (exampleHeader h p) = p"
  "heightOpt (exampleHeader h p) = None"
  "workTotalOpt (exampleHeader h p) = None"
  by (simp_all add: exampleHeader_def)

lemma work_update [simp]: "work (x\<lparr>heightOpt := a\<rparr>) = work x" "work (x\<lparr>workTotalOpt := b\<rparr>) = work x"
  by (simp_all add: work_def bitsBuffer_def)

lemma genesis_setters:
  "setHeight genesisHeader 0 = Inr genesisHeader"
  "setWorkTotal genesisHeader 4295032833 = Inr genesisHeader"
  by (simp_all add: setHeight_def setWorkTotal_def genesisHeader_def)

lemma fromGenesis_eq: "fromGenesis invalid = Inr (genesisGraph invalid)"
  unfolding fromGenesis_def genesisGraph_def
  by (simp add: bindE_def genesis_setters assert_def GENESIS_PREV_HASH_HEX_def)

lemmas graph_eval = addHeaders_def insertHeaders_def filterKnown_def genesisGraph_def bindE_def linkHeader_def
  height_def workTotal_def setHeight_def setWorkTotal_def findTip_def getHeaderTip_def
  reorganize_def noChanges_def assert_def setAdd_def setDelete_def Let_def indexRemoved_def
  BITCOIN_GENESIS_HEADER_HASH_HEX_def collectHeadersToAdd.simps pruneBranches_def staleOf_def
  walkToLongestChain.simps

subsection \<open>C5: \<open>pruneBranches\<close>\<close>

lemma detachStale_fields:
  "detachStale st d = Inr st' \<Longrightarrow>
     allHeaders st' = allHeaders st \<and> headersTreeLeafHashes st' = headersTreeLeafHashes st
     \<and> sortedHeaders st' = sortedHeaders st \<and> sortedHeadersIndex st' = sortedHeadersIndex st
     \<and> invalidBlocks st' = invalidBlocks st"
proof (induction st d rule: detachStale.induct)
  case (1 st)
  then show ?case by simp
next
  case (2 st d dp rest)
  then show ?case
    by (auto simp: bindE_def assert_def split: if_splits option.splits)
qed

lemma deleteStale_fields:
  "deleteStale st xs = Inr st' \<Longrightarrow>
     sortedHeaders st' = sortedHeaders st \<and> sortedHeadersIndex st' = sortedHeadersIndex st
     \<and> invalidBlocks st' = invalidBlocks st
     \<and> (\<forall>h. allHeaders st' h = (if h \<in> set xs then None else allHeaders st h))
     \<and> (\<forall>h. headersTree st' h = (if h \<in> set xs then None else headersTree st h))
     \<and> headersTreeLeafHashes st' = filter (\<lambda>h. h \<notin> set xs) (headersTreeLeafHashes st)"
proof (induction st xs arbitrary: st' rule: deleteStale.induct)
  case (1 st)
  then show ?case by simp
next
  case (2 st h rest)
  let ?st1 = "st\<lparr>allHeaders := (allHeaders st)(h := None),
                   headersTree := (headersTree st)(h := None),
                   headersTreeLeafHashes := setDelete h (headersTreeLeafHashes st)\<rparr>"
  from "2.prems" have d: "deleteStale ?st1 rest = Inr st'"
    by (auto simp: bindE_def assert_def Let_def split: if_splits)
  from "2.IH"[OF refl d] "2.prems"
  have IH: "sortedHeaders st' = sortedHeaders ?st1 \<and> sortedHeadersIndex st' = sortedHeadersIndex ?st1
     \<and> invalidBlocks st' = invalidBlocks ?st1
     \<and> (\<forall>k. allHeaders st' k = (if k \<in> set rest then None else allHeaders ?st1 k))
     \<and> (\<forall>k. headersTree st' k = (if k \<in> set rest then None else headersTree ?st1 k))
     \<and> headersTreeLeafHashes st' = filter (\<lambda>k. k \<notin> set rest) (headersTreeLeafHashes ?st1)"
    by (auto simp: bindE_def assert_def Let_def split: if_splits)
  then show ?case
    by (auto simp: setDelete_def removeAll_filter_not_eq intro!: filter_cong)
qed

lemma singleton_leaves: "x \<in> set xs \<Longrightarrow> length xs = 1 \<Longrightarrow> xs = [x]"
  by (cases xs) auto

lemma pruneBranches_result:
  assumes "pruneBranches st = Some (Inr (st', n))"
  obtains stale d st1 where "staleOf st = Some (Inr (stale, d))"
    and "detachStale st d = Inr st1" and "deleteStale st1 stale = Inr st'"
    and "headersTreeLeafHashes st' = [hashHex (last (sortedHeaders st'))]"
    and "n = int (length (headersTreeLeafHashes st)) - 1"
    and "sortedHeaders st \<noteq> []"
proof -
  from assms obtain stale d where s: "staleOf st = Some (Inr (stale, d))"
    by (auto simp: pruneBranches_def Let_def split: option.splits sum.splits)
  with assms obtain st1 where d1: "detachStale st d = Inr st1"
    by (auto simp: pruneBranches_def Let_def bindE_def split: sum.splits)
  with assms s obtain st2 where d2: "deleteStale st1 stale = Inr st2"
    by (auto simp: pruneBranches_def Let_def bindE_def split: sum.splits)
  with assms s d1 have r: "hashHex (last (sortedHeaders st2)) \<in> set (headersTreeLeafHashes st2)"
      "length (headersTreeLeafHashes st2) = 1" "st' = st2"
      "n = int (length (headersTreeLeafHashes st)) - int (length (headersTreeLeafHashes st2))"
    by (auto simp: pruneBranches_def Let_def bindE_def assert_def split: sum.splits if_splits)
  from s have ne: "sortedHeaders st \<noteq> []"
    by (auto simp: staleOf_def getHeaderTip_def split: if_splits)
  show ?thesis
    using that[OF s d1] d2 r singleton_leaves[OF r(1) r(2)] ne by simp
qed

lemma pruneBranches_fixpoint:
  assumes "sortedHeaders st \<noteq> []"
    and "headersTreeLeafHashes st = [hashHex (last (sortedHeaders st))]"
  shows "pruneBranches st = Some (Inr (st, 0))"
  using assms
  by (simp add: pruneBranches_def staleOf_def getHeaderTip_def setDelete_def bindE_def assert_def Let_def)

lemma branchBelow_on_chain: "onLongestChain st p \<Longrightarrow> branchBelow st p = {}"
  by (auto simp: branchBelow_def)

lemma branchBelow_step:
  assumes "\<not> onLongestChain st p" and "allHeaders st p = Some header"
  shows "branchBelow st p = insert p (branchBelow st (prevHashHex header))"
proof (intro equalityI subsetI)
  fix x assume "x \<in> branchBelow st p"
  then obtain n where x: "x = ancestorHash st p n"
    and off: "\<forall>i \<le> n. \<not> onLongestChain st (ancestorHash st p i)"
    by (auto simp: branchBelow_def)
  show "x \<in> insert p (branchBelow st (prevHashHex header))"
  proof (cases n)
    case 0
    with x show ?thesis by simp
  next
    case (Suc m)
    have "\<forall>i \<le> m. \<not> onLongestChain st (ancestorHash st (prevHashHex header) i)"
    proof (intro allI impI)
      fix i assume "i \<le> m"
      then have "Suc i \<le> n" using Suc by simp
      with off have "\<not> onLongestChain st (ancestorHash st p (Suc i))" by blast
      then show "\<not> onLongestChain st (ancestorHash st (prevHashHex header) i)"
        using assms(2) by simp
    qed
    moreover have "x = ancestorHash st (prevHashHex header) m" using x Suc assms(2) by simp
    ultimately show ?thesis by (auto simp: branchBelow_def)
  qed
next
  fix x assume "x \<in> insert p (branchBelow st (prevHashHex header))"
  then consider "x = p" | "x \<in> branchBelow st (prevHashHex header)" by auto
  then show "x \<in> branchBelow st p"
  proof cases
    case 1
    have "p = ancestorHash st p 0" "\<forall>i \<le> (0::nat). \<not> onLongestChain st (ancestorHash st p i)"
      using assms(1) by simp_all
    then show ?thesis unfolding branchBelow_def 1 by blast
  next
    case 2
    then obtain m where x: "x = ancestorHash st (prevHashHex header) m"
      and off: "\<forall>i \<le> m. \<not> onLongestChain st (ancestorHash st (prevHashHex header) i)"
      by (auto simp: branchBelow_def)
    have "\<forall>i \<le> Suc m. \<not> onLongestChain st (ancestorHash st p i)"
    proof (intro allI impI)
      fix i assume i: "i \<le> Suc m"
      show "\<not> onLongestChain st (ancestorHash st p i)"
      proof (cases i)
        case 0
        then show ?thesis using assms(1) by simp
      next
        case (Suc j)
        with i off have "\<not> onLongestChain st (ancestorHash st (prevHashHex header) j)" by simp
        then show ?thesis using Suc assms(2) by simp
      qed
    qed
    moreover have "x = ancestorHash st p (Suc m)" using x assms(2) by simp
    ultimately show ?thesis unfolding branchBelow_def by blast
  qed
qed

lemma set_setAdd: "set (setAdd x xs) = insert x (set xs)"
  by (auto simp: setAdd_def)

lemma branchBelow_off_chain: "h \<in> branchBelow st l \<Longrightarrow> \<not> onLongestChain st h"
  by (auto simp: branchBelow_def)

lemma walkToLongestChain_stale:
  "walkToLongestChain st stale c p = Some r \<Longrightarrow>
     (\<forall>stale' c' p'. r = Inr (stale', c', p') \<longrightarrow>
        set stale' = set stale \<union> branchBelow st p
        \<and> (onLongestChain st p \<longrightarrow> c' = c \<and> p' = p)
        \<and> (\<not> onLongestChain st p \<longrightarrow>
              (\<exists>header. allHeaders st c' = Some header \<and> prevHashHex header = p'))
        \<and> (\<forall>h \<in> branchBelow st p. \<forall>header. allHeaders st h = Some header \<longrightarrow>
              onLongestChain st (prevHashHex header) \<longrightarrow> h = c' \<and> prevHashHex header = p'))"
proof (induction st stale c p r rule: walkToLongestChain.raw_induct[rotated, consumes 1, case_names step])
  case (step walk st stale c p r)
  show ?case
  proof (cases "onLongestChain st p")
    case True
    with step(2) show ?thesis
      by (auto simp: onLongestChain_def branchBelow_on_chain)
  next
    case False
    show ?thesis
    proof (cases "allHeaders st p")
      case None
      with False step(2) show ?thesis by (auto simp: onLongestChain_def)
    next
      case (Some hp)
      with False step(2) have "walk st (setAdd p stale) p (prevHashHex hp) = Some r"
        by (auto simp: onLongestChain_def)
      then have IH: "\<forall>stale' c' p'. r = Inr (stale', c', p') \<longrightarrow>
          set stale' = set (setAdd p stale) \<union> branchBelow st (prevHashHex hp)
          \<and> (onLongestChain st (prevHashHex hp) \<longrightarrow> c' = p \<and> p' = prevHashHex hp)
          \<and> (\<not> onLongestChain st (prevHashHex hp) \<longrightarrow>
                (\<exists>header. allHeaders st c' = Some header \<and> prevHashHex header = p'))
          \<and> (\<forall>h \<in> branchBelow st (prevHashHex hp). \<forall>header. allHeaders st h = Some header \<longrightarrow>
                onLongestChain st (prevHashHex header) \<longrightarrow> h = c' \<and> prevHashHex header = p')"
        by (rule step(1))
      show ?thesis
      proof (intro allI impI)
        fix stale' c' p' assume r: "r = Inr (stale', c', p')"
        from IH r have a: "set stale' = set (setAdd p stale) \<union> branchBelow st (prevHashHex hp)"
          and b: "onLongestChain st (prevHashHex hp) \<longrightarrow> c' = p \<and> p' = prevHashHex hp"
          and c: "\<not> onLongestChain st (prevHashHex hp) \<longrightarrow>
                (\<exists>header. allHeaders st c' = Some header \<and> prevHashHex header = p')"
          and d: "\<forall>h \<in> branchBelow st (prevHashHex hp). \<forall>header. allHeaders st h = Some header \<longrightarrow>
                onLongestChain st (prevHashHex header) \<longrightarrow> h = c' \<and> prevHashHex header = p'"
          by blast+
        have 1: "set stale' = set stale \<union> branchBelow st p"
          using a by (simp add: set_setAdd branchBelow_step[OF False Some])
        have 2: "\<exists>header. allHeaders st c' = Some header \<and> prevHashHex header = p'"
          using b c Some by (cases "onLongestChain st (prevHashHex hp)") auto
        have 3: "\<forall>h \<in> branchBelow st p. \<forall>header. allHeaders st h = Some header \<longrightarrow>
              onLongestChain st (prevHashHex header) \<longrightarrow> h = c' \<and> prevHashHex header = p'"
          unfolding branchBelow_step[OF False Some] using b d Some by auto
        from 1 2 3 False
        show "set stale' = set stale \<union> branchBelow st p
          \<and> (onLongestChain st p \<longrightarrow> c' = c \<and> p' = p)
          \<and> (\<not> onLongestChain st p \<longrightarrow>
                (\<exists>header. allHeaders st c' = Some header \<and> prevHashHex header = p'))
          \<and> (\<forall>h \<in> branchBelow st p. \<forall>header. allHeaders st h = Some header \<longrightarrow>
                onLongestChain st (prevHashHex header) \<longrightarrow> h = c' \<and> prevHashHex header = p')"
          by blast
      qed
    qed
  qed
qed

lemma collectStale_stale:
  "collectStale st ls stale d = Some (Inr (stale', d')) \<Longrightarrow>
     set stale' = set stale \<union> (\<Union>l \<in> set ls. branchBelow st l)"
proof (induction ls arbitrary: stale d)
  case Nil
  then show ?case by simp
next
  case (Cons l ls)
  from Cons.prems obtain s1 c1 p1 where
    w: "walkToLongestChain st stale l l = Some (Inr (s1, c1, p1))"
    and r: "collectStale st ls s1 (mapSet c1 p1 d) = Some (Inr (stale', d'))"
    by (auto split: option.splits sum.splits)
  from walkToLongestChain_stale[OF w] have "set s1 = set stale \<union> branchBelow st l" by blast
  with Cons.IH[OF r] show ?case by auto
qed

lemma deleteStale_off_chain:
  "deleteStale st xs = Inr st' \<Longrightarrow> x \<in> set xs \<Longrightarrow> map_of (sortedHeadersIndex st) x = None"
proof (induction st xs arbitrary: st' rule: deleteStale.induct)
  case (1 st)
  then show ?case by simp
next
  case (2 st h rest)
  let ?st1 = "st\<lparr>allHeaders := (allHeaders st)(h := None),
                   headersTree := (headersTree st)(h := None),
                   headersTreeLeafHashes := setDelete h (headersTreeLeafHashes st)\<rparr>"
  from "2.prems"(1) have a: "map_of (sortedHeadersIndex st) h = None"
    and d: "deleteStale ?st1 rest = Inr st'"
    by (auto simp: Let_def bindE_def assert_def split: if_splits)
  show ?case
  proof (cases "x = h")
    case True
    with a show ?thesis by simp
  next
    case False
    with "2.prems"(2) have "x \<in> set rest" by simp
    from "2.IH"[OF refl d this] show ?thesis by simp
  qed
qed

lemma branchBelow_self: "\<not> onLongestChain st l \<Longrightarrow> l \<in> branchBelow st l"
proof -
  assume a: "\<not> onLongestChain st l"
  have "l = ancestorHash st l 0" "\<forall>i \<le> (0::nat). \<not> onLongestChain st (ancestorHash st l i)"
    using a by simp_all
  then show ?thesis unfolding branchBelow_def by blast
qed


lemma pruneBranches_stale:
  assumes "pruneBranches st = Some (Inr (st', n))"
    and "staleOf st = Some (Inr (stale, d))"
  shows "set stale = losingBranchHashes st"
proof -
  let ?ls = "setDelete (hashHex (last (sortedHeaders st))) (headersTreeLeafHashes st)"
  from assms(2) have c: "collectStale st ?ls ?ls [] = Some (Inr (stale, d))"
    by (auto simp: staleOf_def getHeaderTip_def Let_def split: if_splits)
  from collectStale_stale[OF c]
  have s: "set stale = set ?ls \<union> (\<Union>l \<in> set ?ls. branchBelow st l)" .
  from assms obtain st1 where d1: "detachStale st d = Inr st1"
    by (auto simp: pruneBranches_def Let_def bindE_def split: sum.splits)
  with assms obtain st2 where d2: "deleteStale st1 stale = Inr st2"
    by (auto simp: pruneBranches_def Let_def bindE_def split: sum.splits)
  have off: "\<not> onLongestChain st l" if "l \<in> set ?ls" for l
  proof -
    from that s have "l \<in> set stale" by blast
    from deleteStale_off_chain[OF d2 this] detachStale_fields[OF d1]
    show ?thesis by (simp add: onLongestChain_def)
  qed
  have "set ?ls \<subseteq> (\<Union>l \<in> set ?ls. branchBelow st l)"
    using off branchBelow_self by blast
  with s have "set stale = (\<Union>l \<in> set ?ls. branchBelow st l)" by blast
  moreover have "set ?ls = set (headersTreeLeafHashes st) - {hashHex (last (sortedHeaders st))}"
    by (auto simp: setDelete_def)
  ultimately show ?thesis by (simp add: losingBranchHashes_def)
qed


lemma map_of_mapSet: "map_of (mapSet k v d) = (map_of d)(k \<mapsto> v)"
  by (induction d) (auto simp: fun_eq_iff)

lemma collectStale_divergence:
  assumes "collectStale st ls stale d = Some (Inr (stale', d'))"
    and "\<not> onLongestChain st h" and "allHeaders st h = Some header"
    and "onLongestChain st (prevHashHex header)"
    and "h \<in> (\<Union>l \<in> set ls. branchBelow st l) \<or> map_of d h = Some (prevHashHex header)"
  shows "map_of d' h = Some (prevHashHex header)"
  using assms(1,5)
proof (induction ls arbitrary: stale d)
  case Nil
  then show ?case by simp
next
  case (Cons l ls)
  from Cons.prems(1) obtain s1 c1 p1 where
    w: "walkToLongestChain st stale l l = Some (Inr (s1, c1, p1))"
    and r: "collectStale st ls s1 (mapSet c1 p1 d) = Some (Inr (stale', d'))"
    by (auto split: option.splits sum.splits)
  note W = walkToLongestChain_stale[OF w, rule_format, OF refl]
  have step: "h \<in> (\<Union>l \<in> set ls. branchBelow st l) \<or> map_of (mapSet c1 p1 d) h = Some (prevHashHex header)"
  proof (cases "h \<in> branchBelow st l")
    case True
    with W assms(3,4) have "h = c1 \<and> prevHashHex header = p1" by blast
    then show ?thesis by (simp add: map_of_mapSet)
  next
    case False
    with Cons.prems(2) consider "h \<in> (\<Union>l \<in> set ls. branchBelow st l)" | "map_of d h = Some (prevHashHex header)"
      by auto
    then show ?thesis
    proof cases
      case 1
      then show ?thesis by simp
    next
      case 2
      show ?thesis
      proof (cases "c1 = h")
        case c: True
        have "\<not> onLongestChain st l"
        proof
          assume "onLongestChain st l"
          with W have "c1 = l" by blast
          with c assms(2) \<open>onLongestChain st l\<close> show False by simp
        qed
        with W obtain hd where "allHeaders st c1 = Some hd" "prevHashHex hd = p1" by blast
        with c assms(3) have "p1 = prevHashHex header" by simp
        with c show ?thesis by (simp add: map_of_mapSet)
      next
        case False
        with 2 show ?thesis by (simp add: map_of_mapSet)
      qed
    qed
  qed
  from Cons.IH[OF r step] show ?case .
qed

lemma detachStale_children_mono:
  "detachStale st d = Inr st' \<Longrightarrow> headersTree st' v = Some ch' \<Longrightarrow>
     \<exists>ch. headersTree st v = Some ch \<and> set ch' \<subseteq> set ch"
proof (induction st d arbitrary: ch' rule: detachStale.induct)
  case (1 st)
  then show ?case by auto
next
  case (2 st k p rest)
  from "2.prems"(1) obtain children where c: "headersTree st p = Some children"
    and a1: "map_of (sortedHeadersIndex st) k = None"
    and a2: "map_of (sortedHeadersIndex st) p \<noteq> None"
    and a3: "children \<noteq> []"
    and d: "detachStale (st\<lparr>headersTree := (headersTree st)(p \<mapsto> setDelete k children)\<rparr>) rest = Inr st'"
    by (auto simp: bindE_def assert_def split: if_splits option.splits)
  from "2.IH"[OF c d "2.prems"(2)]
  obtain ch where "((headersTree st)(p \<mapsto> setDelete k children)) v = Some ch" "set ch' \<subseteq> set ch"
    by auto
  with c show ?case
    by (cases "v = p") (auto simp: setDelete_def)
qed

lemma detachStale_detached:
  "detachStale st d = Inr st' \<Longrightarrow> (k, p) \<in> set d \<Longrightarrow> headersTree st' p = Some ch \<Longrightarrow> k \<notin> set ch"
proof (induction st d rule: detachStale.induct)
  case (1 st)
  then show ?case by simp
next
  case (2 st k' p' rest)
  from "2.prems"(1) obtain children where c: "headersTree st p' = Some children"
    and a1: "map_of (sortedHeadersIndex st) k' = None"
    and a2: "map_of (sortedHeadersIndex st) p' \<noteq> None"
    and a3: "children \<noteq> []"
    and d: "detachStale (st\<lparr>headersTree := (headersTree st)(p' \<mapsto> setDelete k' children)\<rparr>) rest = Inr st'"
    by (auto simp: bindE_def assert_def split: if_splits option.splits)
  show ?case
  proof (cases "(k, p) \<in> set rest")
    case True
    from "2.IH"[OF c d True "2.prems"(3)] show ?thesis .
  next
    case False
    with "2.prems"(2) have e: "k = k'" "p = p'" by auto
    from detachStale_children_mono[OF d "2.prems"(3)] e
    show ?thesis by (auto simp: setDelete_def)
  qed
qed

lemma ancestorHash_Suc_right:
  "ancestorHash st l (Suc n) =
     (case allHeaders st (ancestorHash st l n) of
        None \<Rightarrow> ancestorHash st l n
      | Some header \<Rightarrow> prevHashHex header)"
proof (induction n arbitrary: l)
  case 0
  show ?case by (simp split: option.splits)
next
  case (Suc n)
  show ?case
  proof (cases "allHeaders st l")
    case None
    then show ?thesis by simp
  next
    case (Some h0)
    have "ancestorHash st l (Suc (Suc n)) = ancestorHash st (prevHashHex h0) (Suc n)"
      using Some by simp
    also have "\<dots> = (case allHeaders st (ancestorHash st (prevHashHex h0) n) of
        None \<Rightarrow> ancestorHash st (prevHashHex h0) n
      | Some header \<Rightarrow> prevHashHex header)"
      by (rule Suc.IH)
    also have "ancestorHash st (prevHashHex h0) n = ancestorHash st l (Suc n)"
      using Some by simp
    finally show ?thesis .
  qed
qed

lemma branchBelow_parent:
  assumes "h \<in> branchBelow st l" and "allHeaders st h = Some header"
    and "\<not> onLongestChain st (prevHashHex header)"
  shows "prevHashHex header \<in> branchBelow st l"
proof -
  from assms(1) obtain n where h: "h = ancestorHash st l n"
    and off: "\<forall>i \<le> n. \<not> onLongestChain st (ancestorHash st l i)"
    by (auto simp: branchBelow_def)
  have p: "prevHashHex header = ancestorHash st l (Suc n)"
    unfolding ancestorHash_Suc_right using h assms(2) by simp
  have "\<forall>i \<le> Suc n. \<not> onLongestChain st (ancestorHash st l i)"
  proof (intro allI impI)
    fix i assume "i \<le> Suc n"
    then consider "i \<le> n" | "i = Suc n" by linarith
    then show "\<not> onLongestChain st (ancestorHash st l i)"
    proof cases
      case 1
      with off show ?thesis by blast
    next
      case 2
      with p assms(3) show ?thesis by simp
    qed
  qed
  with p show ?thesis unfolding branchBelow_def by blast
qed

lemma pruneBranches_detached:
  assumes "pruneBranches st = Some (Inr (st', n))"
    and "h \<in> losingBranchHashes st" and "allHeaders st h = Some header"
    and "headersTree st' (prevHashHex header) = Some children"
  shows "h \<notin> set children"
proof -
  from assms(1) obtain stale d st1 where s: "staleOf st = Some (Inr (stale, d))"
    and d1: "detachStale st d = Inr st1" and d2: "deleteStale st1 stale = Inr st'"
    by (rule pruneBranches_result)
  note f2 = deleteStale_fields[OF d2]
  have st: "set stale = losingBranchHashes st" by (rule pruneBranches_stale[OF assms(1) s])
  let ?ls = "setDelete (hashHex (last (sortedHeaders st))) (headersTreeLeafHashes st)"
  from s have c: "collectStale st ?ls ?ls [] = Some (Inr (stale, d))"
    by (auto simp: staleOf_def getHeaderTip_def Let_def split: if_splits)
  have ls: "set ?ls = set (headersTreeLeafHashes st) - {hashHex (last (sortedHeaders st))}"
    by (auto simp: setDelete_def)
  from assms(2) obtain l where l: "l \<in> set ?ls" "h \<in> branchBelow st l"
    unfolding losingBranchHashes_def ls by blast
  from assms(4) f2 have ns: "prevHashHex header \<notin> set stale"
    and t1: "headersTree st1 (prevHashHex header) = Some children"
    by (auto split: if_splits)
  have on: "onLongestChain st (prevHashHex header)"
  proof (rule ccontr)
    assume "\<not> onLongestChain st (prevHashHex header)"
    from branchBelow_parent[OF l(2) assms(3) this] l(1) ns st
    show False unfolding losingBranchHashes_def ls by blast
  qed
  have "map_of d h = Some (prevHashHex header)"
    by (rule collectStale_divergence[OF c branchBelow_off_chain[OF l(2)] assms(3) on]) (use l in blast)
  then have "(h, prevHashHex header) \<in> set d" by (rule map_of_SomeD)
  from detachStale_detached[OF d1 this t1] show ?thesis .
qed

text \<open>
  C5: whenever \<open>pruneBranches\<close> returns, the leaves are exactly the tip of the longest
  chain (which is untouched); every hash of a losing branch (every hash met on the way from
  a leaf other than the tip down to the longest chain) is gone from \<open>_allHeaders\<close>, from
  the keys of \<open>_headersTree\<close> and from the leaves, and is no longer in its parent's
  set of children; every other header stays stored; the call returns the number of leaves
  removed; and a second call returns 0 and leaves the graph as it is.
\<close>

theorem C5_prune_branches:
  assumes "pruneBranches st = Some (Inr (st', n))"
  shows "headersTreeLeafHashes st' = [hashHex (last (sortedHeaders st'))]
     \<and> sortedHeaders st' = sortedHeaders st
     \<and> (\<forall>h \<in> losingBranchHashes st.
           allHeaders st' h = None \<and> headersTree st' h = None
           \<and> h \<notin> set (headersTreeLeafHashes st')
           \<and> (\<forall>header children. allHeaders st h = Some header \<longrightarrow>
                 headersTree st' (prevHashHex header) = Some children \<longrightarrow> h \<notin> set children))
     \<and> (\<forall>h. h \<notin> losingBranchHashes st \<longrightarrow> allHeaders st' h = allHeaders st h)
     \<and> n = int (length (headersTreeLeafHashes st)) - 1
     \<and> pruneBranches st' = Some (Inr (st', 0))"
proof -
  from assms obtain stale d st1 where s: "staleOf st = Some (Inr (stale, d))"
    and d1: "detachStale st d = Inr st1" and d2: "deleteStale st1 stale = Inr st'"
    and l: "headersTreeLeafHashes st' = [hashHex (last (sortedHeaders st'))]"
    and n: "n = int (length (headersTreeLeafHashes st)) - 1"
    and ne: "sortedHeaders st \<noteq> []"
    by (rule pruneBranches_result)
  note f1 = detachStale_fields[OF d1]
  note f2 = deleteStale_fields[OF d2]
  have st: "set stale = losingBranchHashes st" by (rule pruneBranches_stale[OF assms s])
  have so: "sortedHeaders st' = sortedHeaders st" using f1 f2 by simp
  have idem: "pruneBranches st' = Some (Inr (st', 0))"
    by (rule pruneBranches_fixpoint) (use so ne l in simp_all)
  have gone: "\<forall>h \<in> losingBranchHashes st.
           allHeaders st' h = None \<and> headersTree st' h = None
           \<and> h \<notin> set (headersTreeLeafHashes st')
           \<and> (\<forall>header children. allHeaders st h = Some header \<longrightarrow>
                 headersTree st' (prevHashHex header) = Some children \<longrightarrow> h \<notin> set children)"
  proof (intro ballI conjI allI impI)
    fix h assume h: "h \<in> losingBranchHashes st"
    with st f2 show "allHeaders st' h = None" "headersTree st' h = None"
      "h \<notin> set (headersTreeLeafHashes st')" by simp_all
    fix header children
    assume "allHeaders st h = Some header" "headersTree st' (prevHashHex header) = Some children"
    with assms h show "h \<notin> set children" by (rule pruneBranches_detached)
  qed
  have kept: "\<forall>h. h \<notin> losingBranchHashes st \<longrightarrow> allHeaders st' h = allHeaders st h"
    using f1 f2 st by simp
  from l so gone kept n idem show ?thesis by (intro conjI)
qed

theorem C5_prune_branches_witness:
  "\<exists>st1 c1 st2 c2 st3.
     addHeaders (genesisGraph {})
       [exampleHeader ''a'' BITCOIN_GENESIS_HEADER_HASH_HEX, exampleHeader ''b'' ''a'',
        exampleHeader ''c'' ''b''] = Some (Inr (st1, c1))
     \<and> addHeaders st1 [exampleHeader ''b2'' ''a'', exampleHeader ''c2'' ''b2'',
          exampleHeader ''d2'' ''c2''] = Some (Inr (st2, c2))
     \<and> headersTreeLeafHashes st2 = [''c'', ''d2'']
     \<and> headersTree st2 ''a'' = Some [''b'', ''b2'']
     \<and> {''b'', ''c''} \<subseteq> losingBranchHashes st2
     \<and> pruneBranches st2 = Some (Inr (st3, 1))
     \<and> headersTreeLeafHashes st3 = [''d2'']
     \<and> allHeaders st3 ''b'' = None \<and> headersTree st3 ''b'' = None
     \<and> allHeaders st3 ''c'' = None \<and> headersTree st3 ''c'' = None
     \<and> headersTree st3 ''a'' = Some [''b2'']
     \<and> allHeaders st3 ''b2'' = allHeaders st2 ''b2'' \<and> allHeaders st3 ''b2'' \<noteq> None
     \<and> pruneBranches st3 = Some (Inr (st3, 0))"
proof -
  have "\<exists>st1 c1 st2 c2 st3.
     addHeaders (genesisGraph {})
       [exampleHeader ''a'' BITCOIN_GENESIS_HEADER_HASH_HEX, exampleHeader ''b'' ''a'',
        exampleHeader ''c'' ''b''] = Some (Inr (st1, c1))
     \<and> addHeaders st1 [exampleHeader ''b2'' ''a'', exampleHeader ''c2'' ''b2'',
          exampleHeader ''d2'' ''c2''] = Some (Inr (st2, c2))
     \<and> headersTreeLeafHashes st2 = [''c'', ''d2'']
     \<and> headersTree st2 ''a'' = Some [''b'', ''b2'']
     \<and> pruneBranches st2 = Some (Inr (st3, 1))
     \<and> hashHex (last (sortedHeaders st2)) = ''d2''
     \<and> map_of (sortedHeadersIndex st2) ''c'' = None
     \<and> map_of (sortedHeadersIndex st2) ''b'' = None
     \<and> map_option prevHashHex (allHeaders st2 ''c'') = Some ''b''
     \<and> map_option prevHashHex (allHeaders st2 ''b'') = Some ''a''
     \<and> allHeaders st2 ''b2'' \<noteq> None
     \<and> map_of (sortedHeadersIndex st2) ''b2'' \<noteq> None
     \<and> headersTree st3 ''a'' = Some [''b2'']"
    by (simp add: graph_eval)
  then obtain st1 c1 st2 c2 st3 where
    a: "addHeaders (genesisGraph {})
       [exampleHeader ''a'' BITCOIN_GENESIS_HEADER_HASH_HEX, exampleHeader ''b'' ''a'',
        exampleHeader ''c'' ''b''] = Some (Inr (st1, c1))"
      "addHeaders st1 [exampleHeader ''b2'' ''a'', exampleHeader ''c2'' ''b2'',
          exampleHeader ''d2'' ''c2''] = Some (Inr (st2, c2))"
      "headersTree st2 ''a'' = Some [''b'', ''b2'']"
      "allHeaders st2 ''b2'' \<noteq> None"
      "headersTree st3 ''a'' = Some [''b2'']"
    and lv: "headersTreeLeafHashes st2 = [''c'', ''d2'']"
    and p: "pruneBranches st2 = Some (Inr (st3, 1))"
    and l: "hashHex (last (sortedHeaders st2)) = ''d2''"
    and off: "map_of (sortedHeadersIndex st2) ''c'' = None" "map_of (sortedHeadersIndex st2) ''b'' = None"
    and pc: "map_option prevHashHex (allHeaders st2 ''c'') = Some ''b''"
    and pb: "map_option prevHashHex (allHeaders st2 ''b'') = Some ''a''"
    and on: "map_of (sortedHeadersIndex st2) ''b2'' \<noteq> None"
    by blast
  from pc obtain hc where hc: "allHeaders st2 ''c'' = Some hc" "prevHashHex hc = ''b''" by auto
  have c: "''c'' \<in> branchBelow st2 ''c''"
    by (rule branchBelow_self) (simp add: onLongestChain_def off)
  have "''b'' \<in> branchBelow st2 ''b''"
    by (rule branchBelow_self) (simp add: onLongestChain_def off)
  then have b: "''b'' \<in> branchBelow st2 ''c''"
    using branchBelow_step[of st2 "''c''" hc] hc off by (simp add: onLongestChain_def)
  from b c lv l have lose: "{''b'', ''c''} \<subseteq> losingBranchHashes st2"
    by (auto simp: losingBranchHashes_def)
  have nb2: "''b2'' \<notin> losingBranchHashes st2"
    using on branchBelow_off_chain[of "''b2''" st2]
    by (auto simp: losingBranchHashes_def onLongestChain_def)
  from C5_prune_branches[OF p] lose nb2 l a lv p show ?thesis
    by (rule_tac x = st1 in exI, rule_tac x = c1 in exI, rule_tac x = st2 in exI,
        rule_tac x = c2 in exI, rule_tac x = st3 in exI) auto
qed

subsection \<open>The scan of a batch\<close>

lemma linked_fields [simp]:
  "hashHex (linked h x y) = hashHex h" "prevHashHex (linked h x y) = prevHashHex h"
  "buffer (linked h x y) = buffer h" "heightOpt (linked h x y) = Some x"
  "workTotalOpt (linked h x y) = Some y" "work (linked h x y) = work h"
  "height (linked h x y) = Inr x" "workTotal (linked h x y) = Inr y"
  by (simp_all add: linked_def work_def bitsBuffer_def height_def workTotal_def)

lemma linkHeader_Inr:
  assumes "linkHeader st header prevHeader children = Inr st'"
  obtains x y w where "height prevHeader = Inr x" "workTotal prevHeader = Inr y" "work header = Inr w"
    "heightOpt header = None \<or> heightOpt header = Some (x + 1)"
    "workTotalOpt header = None \<or> workTotalOpt header = Some (y + w)"
    "st' = st\<lparr>allHeaders := (allHeaders st)(hashHex header \<mapsto> linked header (x + 1) (y + w)),
               headersTree := ((headersTree st)
                  (hashHex prevHeader \<mapsto> setAdd (hashHex header) children))
                  (hashHex header \<mapsto> []),
               headersTreeLeafHashes :=
                 setAdd (hashHex header) (setDelete (hashHex prevHeader) (headersTreeLeafHashes st))\<rparr>"
proof -
  from assms obtain x where x: "height prevHeader = Inr x"
    by (cases "height prevHeader") (auto simp: linkHeader_def bindE_def)
  from assms x obtain h1 where h1: "setHeight header (x + 1) = Inr h1"
    by (cases "setHeight header (x + 1)") (auto simp: linkHeader_def bindE_def)
  from assms x h1 obtain y where y: "workTotal prevHeader = Inr y"
    by (cases "workTotal prevHeader") (auto simp: linkHeader_def bindE_def)
  from assms x h1 y obtain w where w: "work h1 = Inr w"
    by (cases "work h1") (auto simp: linkHeader_def bindE_def)
  from assms x h1 y w obtain h2 where h2: "setWorkTotal h1 (y + w) = Inr h2"
    by (cases "setWorkTotal h1 (y + w)") (auto simp: linkHeader_def bindE_def)
  from h1 have e1: "h1 = header\<lparr>heightOpt := Some (x + 1)\<rparr>"
    and f1: "heightOpt header = None \<or> heightOpt header = Some (x + 1)"
    by (auto simp: setHeight_def split: if_splits)
  from h2 have e2: "h2 = h1\<lparr>workTotalOpt := Some (y + w)\<rparr>"
    and f2: "workTotalOpt h1 = None \<or> workTotalOpt h1 = Some (y + w)"
    by (auto simp: setWorkTotal_def split: if_splits)
  have hw: "work header = Inr w" using w e1 by (simp add: work_def bitsBuffer_def)
  have l: "h2 = linked header (x + 1) (y + w)" by (simp add: e1 e2 linked_def)
  have "st' = st\<lparr>allHeaders := (allHeaders st)(hashHex header \<mapsto> linked header (x + 1) (y + w)),
               headersTree := ((headersTree st)
                  (hashHex prevHeader \<mapsto> setAdd (hashHex header) children))
                  (hashHex header \<mapsto> []),
               headersTreeLeafHashes :=
                 setAdd (hashHex header) (setDelete (hashHex prevHeader) (headersTreeLeafHashes st))\<rparr>"
    using assms x h1 y w h2 unfolding linkHeader_def bindE_def l[symmetric]
    by (simp add: e1 e2)
  then show ?thesis using that[OF x y hw f1 _] f2 e1 by simp
qed


text \<open>One step of the scan, as a case analysis.\<close>

lemma scanHeaders_Cons_cases:
  assumes "scanHeaders st (h # hs) = Inr (st', ivd)"
  obtains (stop) "st' = st" "ivd = []"
      "allHeaders st (prevHashHex h) = None
       \<or> (\<exists>p. allHeaders st (prevHashHex h) = Some p \<and> headersTree st (hashHex p) = None)"
    | (invalid) p c where "st' = st" "allHeaders st (prevHashHex h) = Some p"
      "headersTree st (hashHex p) = Some c" "hashHex h \<in> invalidBlocks st"
      "ivd = h # collectInvalidated h hs"
    | (link) p c st1 where "allHeaders st (prevHashHex h) = Some p"
      "headersTree st (hashHex p) = Some c" "hashHex h \<notin> invalidBlocks st"
      "linkHeader st h p c = Inr st1" "scanHeaders st1 hs = Inr (st', ivd)"
proof (cases "allHeaders st (prevHashHex h)")
  case None
  with assms show ?thesis by (intro stop) auto
next
  case (Some p)
  show ?thesis
  proof (cases "headersTree st (hashHex p)")
    case None
    with assms Some show ?thesis by (intro stop) auto
  next
    case c: (Some c)
    show ?thesis
    proof (cases "hashHex h \<in> invalidBlocks st")
      case True
      with assms Some c show ?thesis by (intro invalid[of p c]) auto
    next
      case False
      with assms Some c
      obtain st1 where l: "linkHeader st h p c = Inr st1" and s: "scanHeaders st1 hs = Inr (st', ivd)"
        by (cases "linkHeader st h p c") (auto simp: bindE_def)
      with Some c False show ?thesis by (intro link[of p c st1]) auto
    qed
  qed
qed


lemma linkHeader_fields:
  "linkHeader st h p c = Inr st1 \<Longrightarrow>
     invalidBlocks st1 = invalidBlocks st \<and> sortedHeaders st1 = sortedHeaders st
     \<and> sortedHeadersIndex st1 = sortedHeadersIndex st"
  by (erule linkHeader_Inr) simp

lemma scanHeaders_fields:
  "scanHeaders st hs = Inr (st', ivd) \<Longrightarrow>
     invalidBlocks st' = invalidBlocks st \<and> sortedHeaders st' = sortedHeaders st
     \<and> sortedHeadersIndex st' = sortedHeadersIndex st"
proof (induction hs arbitrary: st)
  case Nil
  then show ?case by simp
next
  case (Cons h hs)
  from Cons.prems show ?case
  proof (cases rule: scanHeaders_Cons_cases)
    case (link p c st1)
    with Cons.IH[OF link(5)] linkHeader_fields[OF link(4)] show ?thesis by simp
  qed simp_all
qed


lemma insertHeaders_cases:
  assumes "insertHeaders st batch = Some (Inr (st', ch))"
  obtains (empty) "filterKnown st batch = []" "st' = st" "ch = noChanges []"
    | (same) st1 ivd where "filterKnown st batch \<noteq> []"
        "scanHeaders st (filterKnown st batch) = Inr (st1, ivd)"
        "findTip st1 = Inr (hashHex (last (sortedHeaders st1)))"
        "st' = st1" "ch = noChanges ivd"
    | (reorg) st1 ivd tip pushed cur where "filterKnown st batch \<noteq> []"
        "scanHeaders st (filterKnown st batch) = Inr (st1, ivd)"
        "findTip st1 = Inr tip" "tip \<noteq> hashHex (last (sortedHeaders st1))"
        "collectHeadersToAdd st1 (allHeaders st1 tip) [] = Some (pushed, cur)"
        "reorganize st1 ivd pushed cur = Inr (st', ch)"
proof (cases "filterKnown st batch = []")
  case True
  with assms show ?thesis
    by (intro empty) (auto simp: insertHeaders_def Let_def split: if_splits)
next
  case False
  with assms obtain st1 ivd where sc: "scanHeaders st (filterKnown st batch) = Inr (st1, ivd)"
    by (cases "scanHeaders st (filterKnown st batch)")
       (auto simp: insertHeaders_def Let_def split: if_splits)
  with assms False obtain tip where ft: "findTip st1 = Inr tip"
    by (cases "findTip st1")
       (auto simp: insertHeaders_def Let_def split: if_splits)
  show ?thesis
  proof (cases "tip = hashHex (last (sortedHeaders st1))")
    case True
    with assms False sc ft show ?thesis
      by (intro same[of st1 ivd])
         (auto simp: insertHeaders_def Let_def split: if_splits)
  next
    case ne: False
    with assms False sc ft obtain pushed cur where
      "collectHeadersToAdd st1 (allHeaders st1 tip) [] = Some (pushed, cur)"
      "reorganize st1 ivd pushed cur = Inr (st', ch)"
      by (auto simp: insertHeaders_def Let_def split: if_splits)
    with False sc ft ne show ?thesis by (intro reorg[of st1 ivd tip pushed cur]) auto
  qed
qed

lemma reorganize_Inr:
  assumes "reorganize st ivd pushed cur = Inr (st', ch)"
  obtains c hh idx where "cur = Some c" "height c = Inr hh"
    "idx = indexAdded (indexRemoved (sortedHeadersIndex st) (drop (hh + 1) (sortedHeaders st)))
             (hh + 1) (rev pushed)"
    "st' = st\<lparr>sortedHeaders := take (hh + 1) (sortedHeaders st) @ rev pushed,
               sortedHeadersIndex := idx\<rparr>"
    "length idx = length (take (hh + 1) (sortedHeaders st) @ rev pushed)"
    "ch = \<lparr>headersRemovedFromLongestChain = drop (hh + 1) (sortedHeaders st),
           headersAddedToLongestChain = rev pushed, headersInvalidated = ivd\<rparr>"
proof -
  from assms obtain c where c: "cur = Some c"
    by (cases cur) (auto simp: reorganize_def)
  with assms obtain hh where hh: "height c = Inr hh"
    by (cases "height c") (auto simp: reorganize_def bindE_def)
  show ?thesis
    using assms c hh
    by (intro that[of c hh])
       (auto simp: reorganize_def bindE_def assert_def Let_def split: if_splits)
qed

lemma reorganize_fields:
  "reorganize st ivd pushed cur = Inr (st', ch) \<Longrightarrow>
     invalidBlocks st' = invalidBlocks st \<and> allHeaders st' = allHeaders st
     \<and> headersTree st' = headersTree st \<and> headersTreeLeafHashes st' = headersTreeLeafHashes st
     \<and> headersInvalidated ch = ivd"
  by (erule reorganize_Inr) simp

lemma insertHeaders_graph:
  assumes "insertHeaders st batch = Some (Inr (st', ch))"
  shows "(filterKnown st batch = [] \<and> st' = st \<and> ch = noChanges [])
       \<or> (\<exists>st1. filterKnown st batch \<noteq> []
             \<and> scanHeaders st (filterKnown st batch) = Inr (st1, headersInvalidated ch)
             \<and> allHeaders st' = allHeaders st1 \<and> headersTree st' = headersTree st1
             \<and> headersTreeLeafHashes st' = headersTreeLeafHashes st1
             \<and> invalidBlocks st' = invalidBlocks st)"
  using assms
proof (cases rule: insertHeaders_cases)
  case (same st1 ivd)
  then show ?thesis using scanHeaders_fields[OF same(2)] by (auto simp: noChanges_def)
next
  case (reorg st1 ivd tip pushed cur)
  then show ?thesis using scanHeaders_fields[OF reorg(2)] reorganize_fields[OF reorg(6)] by auto
qed simp


subsection \<open>C3: invalid headers\<close>

lemma linkHeader_allHeaders:
  assumes "linkHeader st h p c = Inr st1"
  shows "\<exists>v. allHeaders st1 = (allHeaders st)(hashHex h \<mapsto> v) \<and> hashHex v = hashHex h
            \<and> prevHashHex v = prevHashHex h \<and> buffer v = buffer h"
  using assms by (rule linkHeader_Inr) (auto intro!: exI)

lemma scanHeaders_dom_mono:
  "scanHeaders st hs = Inr (st', ivd) \<Longrightarrow> allHeaders st k \<noteq> None \<Longrightarrow> allHeaders st' k \<noteq> None"
proof (induction hs arbitrary: st)
  case Nil
  then show ?case by simp
next
  case (Cons h hs)
  from Cons.prems(1) show ?case
  proof (cases rule: scanHeaders_Cons_cases)
    case (link p c st1)
    from linkHeader_allHeaders[OF link(4)] Cons.prems(2) have "allHeaders st1 k \<noteq> None" by auto
    with Cons.IH[OF link(5)] show ?thesis by simp
  qed (use Cons.prems in simp_all)
qed

lemma scanHeaders_no_invalid_enters:
  assumes "scanHeaders st hs = Inr (st', ivd)" and "\<forall>k \<in> invalidBlocks st. allHeaders st k = None"
  shows "(\<forall>k \<in> invalidBlocks st. allHeaders st' k = None)
       \<and> (\<forall>k v. allHeaders st' k = Some v \<longrightarrow>
             allHeaders st k = Some v
             \<or> (k \<notin> invalidBlocks st \<and> prevHashHex v \<notin> invalidBlocks st
                 \<and> (\<exists>h \<in> set hs. hashHex h = k \<and> prevHashHex h = prevHashHex v \<and> buffer h = buffer v)))"
  using assms
proof (induction hs arbitrary: st)
  case Nil
  then show ?case by simp
next
  case (Cons h hs)
  from Cons.prems(1) show ?case
  proof (cases rule: scanHeaders_Cons_cases)
    case (link p c st1)
    from linkHeader_allHeaders[OF link(4)] obtain v where
      v: "allHeaders st1 = (allHeaders st)(hashHex h \<mapsto> v)" "hashHex v = hashHex h"
         "prevHashHex v = prevHashHex h" "buffer v = buffer h" by blast
    have ib: "invalidBlocks st1 = invalidBlocks st" using linkHeader_fields[OF link(4)] by simp
    have ni: "\<forall>k \<in> invalidBlocks st1. allHeaders st1 k = None"
      using Cons.prems(2) link(3) by (auto simp: v ib)
    have pn: "prevHashHex h \<notin> invalidBlocks st" using Cons.prems(2) link(1) by auto
    from Cons.IH[OF link(5) ni]
    have IH: "\<forall>k \<in> invalidBlocks st. allHeaders st' k = None"
      "\<And>k w. allHeaders st' k = Some w \<Longrightarrow>
             allHeaders st1 k = Some w
             \<or> (k \<notin> invalidBlocks st \<and> prevHashHex w \<notin> invalidBlocks st
                 \<and> (\<exists>h \<in> set hs. hashHex h = k \<and> prevHashHex h = prevHashHex w \<and> buffer h = buffer w))"
      by (auto simp: ib)
    show ?thesis
    proof (intro conjI allI impI)
      fix k w assume "allHeaders st' k = Some w"
      from IH(2)[OF this] show "allHeaders st k = Some w
             \<or> (k \<notin> invalidBlocks st \<and> prevHashHex w \<notin> invalidBlocks st
                 \<and> (\<exists>h \<in> set (h # hs). hashHex h = k \<and> prevHashHex h = prevHashHex w \<and> buffer h = buffer w))"
        using v link(3) pn by (auto split: if_splits)
    qed (rule IH(1))
  qed (use Cons.prems in simp_all)
qed

lemma scanHeaders_invalidated:
  "scanHeaders st hs = Inr (st', ivd) \<Longrightarrow>
     \<exists>pre rest. hs = pre @ rest
       \<and> (\<forall>x \<in> set pre. hashHex x \<notin> invalidBlocks st \<and> allHeaders st' (hashHex x) \<noteq> None)
       \<and> (case rest of
             [] \<Rightarrow> ivd = []
           | h # r \<Rightarrow>
               (case allHeaders st' (prevHashHex h) of
                  None \<Rightarrow> ivd = []
                | Some p \<Rightarrow>
                    (case headersTree st' (hashHex p) of
                       None \<Rightarrow> ivd = []
                     | Some c \<Rightarrow> hashHex h \<in> invalidBlocks st \<and> ivd = h # collectInvalidated h r)))"
proof (induction hs arbitrary: st)
  case Nil
  then show ?case by simp
next
  case (Cons h hs)
  from Cons.prems(1) show ?case
  proof (cases rule: scanHeaders_Cons_cases)
    case stop
    then show ?thesis by (intro exI[of _ "[]"] exI[of _ "h # hs"]) auto
  next
    case (invalid p c)
    then show ?thesis by (intro exI[of _ "[]"] exI[of _ "h # hs"]) auto
  next
    case (link p c st1)
    have ib: "invalidBlocks st1 = invalidBlocks st" using linkHeader_fields[OF link(4)] by simp
    from Cons.IH[OF link(5)] obtain pre rest where
      d: "hs = pre @ rest"
        "\<forall>x \<in> set pre. hashHex x \<notin> invalidBlocks st \<and> allHeaders st' (hashHex x) \<noteq> None"
        "(case rest of
             [] \<Rightarrow> ivd = []
           | h # r \<Rightarrow>
               (case allHeaders st' (prevHashHex h) of
                  None \<Rightarrow> ivd = []
                | Some p \<Rightarrow>
                    (case headersTree st' (hashHex p) of
                       None \<Rightarrow> ivd = []
                     | Some c \<Rightarrow> hashHex h \<in> invalidBlocks st \<and> ivd = h # collectInvalidated h r)))"
      unfolding ib by blast
    have "allHeaders st1 (hashHex h) \<noteq> None" using linkHeader_allHeaders[OF link(4)] by auto
    then have "allHeaders st' (hashHex h) \<noteq> None" by (rule scanHeaders_dom_mono[OF link(5)])
    with d link(3) show ?thesis by (intro exI[of _ "h # pre"] exI[of _ rest]) auto
  qed
qed


text \<open>
  C3 as stated: a header of the batch whose hash or whose parent's hash is invalid is
  reported in the invalidated list. With \<open>x\<close> invalid: a header naming \<open>x\<close> as its
  parent, submitted alone, meets the broken-chain rule (\<open>x\<close> is not stored) and nothing
  is reported; and \<open>x\<close> itself, submitted behind a header with an unknown parent, is
  never reached by the scan and not reported either.
\<close>

theorem C3_counterexample:
  "addHeaders (genesisGraph {''x''}) [exampleHeader ''y'' ''x''] = Some (Inr (genesisGraph {''x''}, noChanges []))
   \<and> prevHashHex (exampleHeader ''y'' ''x'') \<in> invalidBlocks (genesisGraph {''x''})
   \<and> addHeaders (genesisGraph {''x''})
        [exampleHeader ''q'' ''p'', exampleHeader ''x'' BITCOIN_GENESIS_HEADER_HASH_HEX]
       = Some (Inr (genesisGraph {''x''}, noChanges []))
   \<and> hashHex (exampleHeader ''x'' BITCOIN_GENESIS_HEADER_HASH_HEX) \<in> invalidBlocks (genesisGraph {''x''})
   \<and> headersInvalidated (noChanges []) = []"
  by (simp add: graph_eval)

text \<open>
  C3 (amended): in a graph that stores no invalid hash (as the genesis graph does when the
  genesis is not declared invalid), \<open>addHeaders\<close> keeps it so, and every header it stores
  comes from a batch header whose hash and whose parent's hash are not invalid. The scan
  accepts a prefix of the batch (after the filter of known headers) and stops at the first
  header it cannot link; the invalidated list is empty unless that header has a stored
  parent and an invalid hash, and is then that header followed by the headers directly
  behind it as long as each names its predecessor as its parent. Invalid headers that the
  scan does not reach, or whose invalid parent is not in the batch directly before them,
  are dropped without being reported.
\<close>

theorem C3_invalid_headers:
  assumes "addHeaders st batch = Some (Inr (st', ch))"
    and "\<forall>k \<in> invalidBlocks st. allHeaders st k = None"
  shows "invalidBlocks st' = invalidBlocks st
     \<and> (\<forall>k \<in> invalidBlocks st. allHeaders st' k = None)
     \<and> (\<forall>k v. allHeaders st' k = Some v \<longrightarrow>
             allHeaders st k = Some v
             \<or> (k \<notin> invalidBlocks st \<and> prevHashHex v \<notin> invalidBlocks st
                 \<and> (\<exists>h \<in> set batch. hashHex h = k \<and> prevHashHex h = prevHashHex v \<and> buffer h = buffer v)))
     \<and> (\<exists>pre rest. filterKnown st batch = pre @ rest
           \<and> (\<forall>x \<in> set pre. hashHex x \<notin> invalidBlocks st \<and> allHeaders st' (hashHex x) \<noteq> None)
           \<and> (case rest of
                 [] \<Rightarrow> headersInvalidated ch = []
               | h # r \<Rightarrow>
                   (case allHeaders st' (prevHashHex h) of
                      None \<Rightarrow> headersInvalidated ch = []
                    | Some p \<Rightarrow>
                        (case headersTree st' (hashHex p) of
                           None \<Rightarrow> headersInvalidated ch = []
                         | Some c \<Rightarrow> hashHex h \<in> invalidBlocks st
                             \<and> headersInvalidated ch = h # collectInvalidated h r))))"
proof -
  from assms(1) have i: "insertHeaders st batch = Some (Inr (st', ch))" by (simp add: addHeaders_def)
  from insertHeaders_graph[OF i] show ?thesis
  proof
    assume e: "filterKnown st batch = [] \<and> st' = st \<and> ch = noChanges []"
    then show ?thesis using assms(2) by (auto simp: noChanges_def)
  next
    assume "\<exists>st1. filterKnown st batch \<noteq> []
             \<and> scanHeaders st (filterKnown st batch) = Inr (st1, headersInvalidated ch)
             \<and> allHeaders st' = allHeaders st1 \<and> headersTree st' = headersTree st1
             \<and> headersTreeLeafHashes st' = headersTreeLeafHashes st1
             \<and> invalidBlocks st' = invalidBlocks st"
    then obtain st1 where sc: "scanHeaders st (filterKnown st batch) = Inr (st1, headersInvalidated ch)"
      and eq: "allHeaders st' = allHeaders st1" "headersTree st' = headersTree st1"
        "invalidBlocks st' = invalidBlocks st" by blast
    have sub: "set (filterKnown st batch) \<subseteq> set batch" by (auto simp: filterKnown_def)
    from scanHeaders_no_invalid_enters[OF sc assms(2)] sub
    have a: "\<forall>k \<in> invalidBlocks st. allHeaders st' k = None"
      and b: "\<forall>k v. allHeaders st' k = Some v \<longrightarrow>
             allHeaders st k = Some v
             \<or> (k \<notin> invalidBlocks st \<and> prevHashHex v \<notin> invalidBlocks st
                 \<and> (\<exists>h \<in> set batch. hashHex h = k \<and> prevHashHex h = prevHashHex v \<and> buffer h = buffer v))"
      unfolding eq by (blast, blast)
    note d = scanHeaders_invalidated[OF sc, folded eq(1) eq(2)]
    show ?thesis
      by (intro conjI) (rule eq(3), rule a, rule b, rule d)
  qed
qed

theorem C3_invalid_headers_witness:
  "\<exists>st' ch. addHeaders (genesisGraph {''x''})
       [exampleHeader ''a'' BITCOIN_GENESIS_HEADER_HASH_HEX, exampleHeader ''x'' ''a'',
        exampleHeader ''y'' ''x'', exampleHeader ''z'' ''a''] = Some (Inr (st', ch))
     \<and> map hashHex (headersInvalidated ch) = [''x'', ''y'']
     \<and> allHeaders st' ''x'' = None \<and> allHeaders st' ''a'' \<noteq> None \<and> allHeaders st' ''z'' = None"
proof -
  have "\<exists>st' ch. addHeaders (genesisGraph {''x''})
       [exampleHeader ''a'' BITCOIN_GENESIS_HEADER_HASH_HEX, exampleHeader ''x'' ''a'',
        exampleHeader ''y'' ''x'', exampleHeader ''z'' ''a''] = Some (Inr (st', ch))
     \<and> map hashHex (headersInvalidated ch) = [''x'', ''y'']
     \<and> allHeaders st' ''a'' \<noteq> None \<and> allHeaders st' ''z'' = None"
    by (simp add: graph_eval)
  then obtain st' ch where r: "addHeaders (genesisGraph {''x''})
       [exampleHeader ''a'' BITCOIN_GENESIS_HEADER_HASH_HEX, exampleHeader ''x'' ''a'',
        exampleHeader ''y'' ''x'', exampleHeader ''z'' ''a''] = Some (Inr (st', ch))"
    and o: "map hashHex (headersInvalidated ch) = [''x'', ''y'']"
      "allHeaders st' ''a'' \<noteq> None" "allHeaders st' ''z'' = None" by (elim exE conjE)
  have g: "\<forall>k \<in> invalidBlocks (genesisGraph {''x''}). allHeaders (genesisGraph {''x''}) k = None"
    by (simp add: genesisGraph_def BITCOIN_GENESIS_HEADER_HASH_HEX_def)
  from C3_invalid_headers[OF r g] have "allHeaders st' ''x'' = None"
    by (simp add: genesisGraph_def)
  with r o show ?thesis by (intro exI[of _ st'] exI[of _ ch] conjI)
qed

end
